theory Spec2Isabelle
  imports Main "HOL-Library.Sublist"
begin

section \<open>Text and bytes\<close>

text \<open>
  The program of \<^verbatim>\<open>rn2483.py\<close> talks to an RN2483 radio module over a serial line.
  A Python \<^verbatim>\<open>bytes\<close> value is a list of 8-bit characters. A Python \<^verbatim>\<open>str\<close> is
  represented by its UTF-8 encoding, again a list of 8-bit characters: \<^verbatim>\<open>str.encode()\<close>
  is then the identity, \<^verbatim>\<open>bytes.decode()\<close> is the check that the bytes are
  well-formed UTF-8, and equality, concatenation, the substring test \<^verbatim>\<open>in\<close> and
  \<^verbatim>\<open>split(" ")\<close> act on the encoding as they act on the code points. A \<^verbatim>\<open>str\<close>
  holding a lone surrogate has no encoding and is outside the model.
\<close>

type_synonym bytes = string
type_synonym str = string

definition byte :: "char \<Rightarrow> nat" where
  "byte c = of_char c"

definition cont :: "nat \<Rightarrow> bool" where
  "cont b = (128 \<le> b \<and> b \<le> 191)"

definition second3 :: "nat \<Rightarrow> nat \<Rightarrow> bool" where
  "second3 a b = (if a = 224 then 160 \<le> b \<and> b \<le> 191
                  else if a = 237 then 128 \<le> b \<and> b \<le> 159 else cont b)"

definition second4 :: "nat \<Rightarrow> nat \<Rightarrow> bool" where
  "second4 a b = (if a = 240 then 144 \<le> b \<and> b \<le> 191
                  else if a = 244 then 128 \<le> b \<and> b \<le> 143 else cont b)"

text \<open>Well-formed UTF-8 (strict: no overlong forms, no surrogates, at most U+10FFFF).\<close>

fun utf8_valid :: "nat list \<Rightarrow> bool" where
  "utf8_valid [] = True"
| "utf8_valid (a # bs) =
     (if a < 128 then utf8_valid bs
      else if 194 \<le> a \<and> a \<le> 223 then
        (case bs of b # r \<Rightarrow> cont b \<and> utf8_valid r | _ \<Rightarrow> False)
      else if 224 \<le> a \<and> a \<le> 239 then
        (case bs of b # c # r \<Rightarrow> second3 a b \<and> cont c \<and> utf8_valid r | _ \<Rightarrow> False)
      else if 240 \<le> a \<and> a \<le> 244 then
        (case bs of b # c # d # r \<Rightarrow> second4 a b \<and> cont c \<and> cont d \<and> utf8_valid r
                  | _ \<Rightarrow> False)
      else False)"

text \<open>\<^verbatim>\<open>bytes.decode()\<close>: \<open>None\<close> is the UnicodeDecodeError.\<close>

definition decode :: "bytes \<Rightarrow> str option" where
  "decode bs = (if utf8_valid (map byte bs) then Some bs else None)"

text \<open>\<^verbatim>\<open>str.encode()\<close>.\<close>

definition encode :: "str \<Rightarrow> bytes" where
  "encode s = s"

text \<open>
  \<^verbatim>\<open>bytes.strip()\<close> removes the ASCII whitespace bytes (space, tab, line feed, carriage
  return, vertical tab, form feed) at both ends.
\<close>

definition bspace :: "char \<Rightarrow> bool" where
  "bspace c = (byte c = 32 \<or> (9 \<le> byte c \<and> byte c \<le> 13))"

definition bstrip :: "bytes \<Rightarrow> bytes" where
  "bstrip bs = rev (dropWhile bspace (rev (dropWhile bspace bs)))"

text \<open>
  \<^verbatim>\<open>str.rstrip()\<close> removes the trailing characters that Python's \<^verbatim>\<open>str\<close> takes for
  whitespace: U+0009..U+000D, U+001C..U+0020, U+0085, U+00A0, U+1680, U+2000..U+200A,
  U+2028, U+2029, U+202F, U+205F and U+3000. \<open>space_len\<close> reads the encoding backwards
  and gives the number of bytes of the whitespace character it ends with, 0 when there is
  none.
\<close>

definition space3 :: "nat \<Rightarrow> nat \<Rightarrow> nat \<Rightarrow> bool" where
  "space3 a b c =
     ((a = 225 \<and> b = 154 \<and> c = 128) \<or>
      (a = 226 \<and> b = 128 \<and> ((128 \<le> c \<and> c \<le> 138) \<or> c = 168 \<or> c = 169 \<or> c = 175)) \<or>
      (a = 226 \<and> b = 129 \<and> c = 159) \<or>
      (a = 227 \<and> b = 128 \<and> c = 128))"

fun space_len :: "nat list \<Rightarrow> nat" where
  "space_len [] = 0"
| "space_len (c # r) =
     (if (9 \<le> c \<and> c \<le> 13) \<or> (28 \<le> c \<and> c \<le> 32) then 1
      else (case r of
              [] \<Rightarrow> 0
            | b # r' \<Rightarrow>
                (if b = 194 \<and> (c = 133 \<or> c = 160) then 2
                 else (case r' of [] \<Rightarrow> 0 | a # _ \<Rightarrow> (if space3 a b c then 3 else 0)))))"

function rstrip_rev :: "string \<Rightarrow> string" where
  "rstrip_rev rs =
     (if space_len (map byte rs) = 0 then rs
      else rstrip_rev (drop (space_len (map byte rs)) rs))"
  by pat_completeness auto
termination
proof (relation "measure length")
  show "wf (measure length)" by simp
next
  fix rs :: string
  assume a: "space_len (map byte rs) \<noteq> 0"
  then have "rs \<noteq> []" by auto
  with a show "(drop (space_len (map byte rs)) rs, rs) \<in> measure length" by simp
qed

declare rstrip_rev.simps [simp del]

definition rstrip :: "str \<Rightarrow> str" where
  "rstrip s = rev (rstrip_rev (rev s))"

text \<open>The substring test \<^verbatim>\<open>sub in s\<close>.\<close>

fun str_in :: "str \<Rightarrow> str \<Rightarrow> bool" where
  "str_in sub [] = (sub = [])"
| "str_in sub (c # cs) = (prefix sub (c # cs) \<or> str_in sub cs)"

text \<open>
  \<^verbatim>\<open>s.split(" ")\<close>: the pieces between the single spaces of \<open>s\<close>; never the empty list.
\<close>

fun split_sp :: "str \<Rightarrow> str list" where
  "split_sp [] = [[]]"
| "split_sp (c # cs) =
     (if c = CHR '' '' then [] # split_sp cs
      else (case split_sp cs of
              [] \<Rightarrow> [[c]]
            | p # ps \<Rightarrow> (c # p) # ps))"

text \<open>\<^verbatim>\<open>str(n)\<close> of an integer, as an f-string formats it.\<close>

function str_nat :: "nat \<Rightarrow> str" where
  "str_nat n =
     (if n < 10 then [char_of (48 + n)]
      else str_nat (n div 10) @ [char_of (48 + n mod 10)])"
  by pat_completeness auto
termination
  by (relation "measure id") auto

declare str_nat.simps [simp del]

definition str_int :: "int \<Rightarrow> str" where
  "str_int i = (if i < 0 then CHR ''-'' # str_nat (nat (- i)) else str_nat (nat i))"

text \<open>\<^verbatim>\<open>bytes.hex()\<close>: two lower-case hexadecimal digits for each byte.\<close>

definition hex_digit :: "nat \<Rightarrow> char" where
  "hex_digit d = (if d < 10 then char_of (48 + d) else char_of (87 + d))"

definition hex :: "bytes \<Rightarrow> str" where
  "hex bs = concat (map (\<lambda>c. [hex_digit (byte c div 16), hex_digit (byte c mod 16)]) bs)"


section \<open>The serial line, the clock and the log\<close>

text \<open>
  The environment of a run is a script: the result of each call of \<^verbatim>\<open>sp.readline()\<close>,
  in order. A call gives a line of bytes, the empty \<^verbatim>\<open>b""\<close> when nothing arrived
  before the time-out (the transport contract: bytes or empty), or raises. After the
  script every call gives \<^verbatim>\<open>b""\<close>: the device has fallen silent. An interrupt by the
  user is the exception \<open>KeyboardInterrupt\<close>, seen at a read.

  What the program does is recorded in a trace: the bytes written, the sleeps (in
  milliseconds), the log records (level, format, arguments) and the closing of the port.
\<close>

datatype exn = KeyboardInterrupt | SerialException | ValueError | UnicodeDecodeError

datatype event = Line bytes | Raises exn

datatype level = DEBUG | INFO | ERROR | CRITICAL

datatype arg = AStr str | AInt int | AClass exn | AExc exn

datatype action = Write bytes | Sleep nat | Log level str "arg list" | Close

record world =
  port_error :: "exn option"
  inp :: "event list"
  trace :: "action list"

text \<open>
  A call returns a value, raises, or never returns (\<open>Hang\<close>: it waits for a line that
  never comes). Each outcome carries the world it leaves.
\<close>

datatype 'a result = Ret 'a world | Exc exn world | Hang world

fun then_do :: "'a result \<Rightarrow> ('a \<Rightarrow> world \<Rightarrow> 'b result) \<Rightarrow> 'b result" where
  "then_do (Ret x w) f = f x w"
| "then_do (Exc e w) f = Exc e w"
| "then_do (Hang w) f = Hang w"

fun world_of :: "'a result \<Rightarrow> world" where
  "world_of (Ret x w) = w"
| "world_of (Exc e w) = w"
| "world_of (Hang w) = w"

definition emit :: "action \<Rightarrow> world \<Rightarrow> world" where
  "emit a w = w\<lparr>trace := trace w @ [a]\<rparr>"

definition sp_write :: "bytes \<Rightarrow> world \<Rightarrow> world" where
  "sp_write bs w = emit (Write bs) w"

definition sleep :: "nat \<Rightarrow> world \<Rightarrow> world" where
  "sleep ms w = emit (Sleep ms) w"

definition logging :: "level \<Rightarrow> str \<Rightarrow> arg list \<Rightarrow> world \<Rightarrow> world" where
  "logging lvl fmt args w = emit (Log lvl fmt args) w"

definition sp_close :: "world \<Rightarrow> world" where
  "sp_close w = emit Close w"

definition sp_readline :: "world \<Rightarrow> bytes result" where
  "sp_readline w =
     (case inp w of
        [] \<Rightarrow> Ret [] w
      | Line bs # rest \<Rightarrow> Ret bs (w\<lparr>inp := rest\<rparr>)
      | Raises e # rest \<Rightarrow> Exc e (w\<lparr>inp := rest\<rparr>))"

text \<open>The world at the start of a run with the script \<open>es\<close>: the port opens, nothing done yet.\<close>

definition world0 :: "event list \<Rightarrow> world" where
  "world0 es = \<lparr>port_error = None, inp = es, trace = []\<rparr>"

section \<open>Configuration\<close>

definition APPKEY :: str where
  "APPKEY = ''0123456789ABCDEF0123456789ABCDEF''"

definition JOINEUI :: str where
  "JOINEUI = ''DEAD25DEAD25DEAD''"

definition DEVEUI :: str where
  "DEVEUI = ''DEADDEAD00090002''"

definition MESSAGE :: str where
  "MESSAGE = ''Hello from '' @ DEVEUI"

definition SPREADING_FACTOR :: int where
  "SPREADING_FACTOR = 7"

section \<open>send\<close>

definition CRLF :: str where
  "CRLF = [CHR 0x0D, CHR 0x0A]"

text \<open>A line as the module sends it: the text, then carriage return and line feed.\<close>

definition line :: "str \<Rightarrow> bytes" where
  "line s = s @ CRLF"

text \<open>
  The loop \<^verbatim>\<open>while not rdata: rdata = sp.readline()\<close>. On the exhausted script every
  read is empty and the loop never ends: that is the outcome \<open>Hang\<close>.
\<close>

function wait_line :: "bytes \<Rightarrow> world \<Rightarrow> bytes result" where
  "wait_line rdata w =
     (if rdata \<noteq> [] then Ret rdata w
      else if inp w = [] then Hang w
      else (case sp_readline w of
              Ret r w' \<Rightarrow> wait_line r w'
            | Exc e w' \<Rightarrow> Exc e w'
            | Hang w' \<Rightarrow> Hang w'))"
  by pat_completeness auto
termination
  by (relation "measure (\<lambda>(rdata, w). length (inp w))")
     (auto simp: sp_readline_def split: list.splits event.splits)

definition send :: "str \<Rightarrow> world \<Rightarrow> str result" where
  "send data w =
     (case sp_readline (sleep 200 (sp_write (encode (rstrip data @ CRLF)) w)) of
        Ret rdata w1 \<Rightarrow>
          (case wait_line rdata w1 of
             Ret rdata' w2 \<Rightarrow>
               (case decode (bstrip rdata') of
                  None \<Rightarrow> Exc UnicodeDecodeError w2
                | Some decoded_response \<Rightarrow>
                    Ret decoded_response
                      (logging DEBUG ''Decoded response : %s'' [AStr decoded_response] w2))
           | Exc e w' \<Rightarrow> Exc e w'
           | Hang w' \<Rightarrow> Hang w')
      | Exc e w' \<Rightarrow> Exc e w'
      | Hang w' \<Rightarrow> Hang w')"


declare wait_line.simps [simp del]

text \<open>Writing, sleeping and logging leave the script alone; a read never lengthens it.\<close>

lemma inp_emit: "inp (emit a w) = inp w"
  by (simp add: emit_def)

lemma inp_actions:
  "inp (sp_write bs w) = inp w"
  "inp (sleep ms w) = inp w"
  "inp (logging lvl fmt args w) = inp w"
  "inp (sp_close w) = inp w"
  by (simp_all add: sp_write_def sleep_def logging_def sp_close_def inp_emit)

lemma wait_line_nonempty: "rdata \<noteq> [] \<Longrightarrow> wait_line rdata w = Ret rdata w"
  by (subst wait_line.simps) simp

lemma wait_line_silent: "inp w = [] \<Longrightarrow> wait_line [] w = Hang w"
  by (subst wait_line.simps) simp

lemma wait_line_Line:
  "inp w = Line bs # rest \<Longrightarrow> wait_line [] w = wait_line bs (w\<lparr>inp := rest\<rparr>)"
  by (subst wait_line.simps) (simp add: sp_readline_def)

lemma wait_line_Raises:
  "inp w = Raises e # rest \<Longrightarrow> wait_line [] w = Exc e (w\<lparr>inp := rest\<rparr>)"
  by (subst wait_line.simps) (simp add: sp_readline_def)

lemmas wait_line_unfold = wait_line_nonempty wait_line_silent wait_line_Line wait_line_Raises

lemma sp_readline_inp: "length (inp (world_of (sp_readline w))) \<le> length (inp w)"
  by (simp add: sp_readline_def split: list.splits event.splits)

lemma sp_readline_nonempty:
  "sp_readline w = Ret r w' \<Longrightarrow> r \<noteq> [] \<Longrightarrow> length (inp w') < length (inp w)"
  by (auto simp: sp_readline_def split: list.splits event.splits)

lemma wait_line_inp_aux:
  "inp w = es \<Longrightarrow> length (inp (world_of (wait_line rdata w))) \<le> length es"
proof (induction es arbitrary: w rdata)
  case Nil
  then show ?case by (cases "rdata = []") (simp_all add: wait_line_unfold)
next
  case (Cons ev es)
  show ?case
  proof (cases "rdata = []")
    case False
    with Cons.prems show ?thesis by (simp add: wait_line_nonempty)
  next
    case True
    show ?thesis
    proof (cases ev)
      case (Line bs)
      with Cons.prems True have "wait_line rdata w = wait_line bs (w\<lparr>inp := es\<rparr>)"
        by (simp add: wait_line_Line)
      moreover have "length (inp (world_of (wait_line bs (w\<lparr>inp := es\<rparr>)))) \<le> length es"
        by (rule Cons.IH) simp
      ultimately show ?thesis by simp
    next
      case (Raises e)
      with Cons.prems True show ?thesis by (simp add: wait_line_Raises)
    qed
  qed
qed

lemma wait_line_inp: "length (inp (world_of (wait_line rdata w))) \<le> length (inp w)"
  by (rule wait_line_inp_aux) simp

lemma wait_line_Ret_inp:
  "wait_line rdata w = Ret r w' \<Longrightarrow> length (inp w') \<le> length (inp w)"
  using wait_line_inp [of rdata w] by simp

lemma wait_line_Ret_aux:
  "inp w = es \<Longrightarrow> wait_line [] w = Ret r w' \<Longrightarrow> r \<noteq> [] \<and> length (inp w') < length es"
proof (induction es arbitrary: w)
  case Nil
  then show ?case by (simp add: wait_line_silent)
next
  case (Cons ev es)
  show ?case
  proof (cases ev)
    case (Line bs)
    with Cons.prems have eq: "wait_line bs (w\<lparr>inp := es\<rparr>) = Ret r w'"
      by (simp add: wait_line_Line)
    show ?thesis
    proof (cases "bs = []")
      case True
      with eq Cons.IH [of "w\<lparr>inp := es\<rparr>"] show ?thesis by simp
    next
      case False
      with eq show ?thesis by (auto simp: wait_line_nonempty)
    qed
  next
    case (Raises e)
    with Cons.prems show ?thesis by (simp add: wait_line_Raises)
  qed
qed

lemma wait_line_Ret_nonempty: "wait_line rdata w = Ret r w' \<Longrightarrow> r \<noteq> []"
  by (cases "rdata = []") (auto simp: wait_line_nonempty dest: wait_line_Ret_aux [OF refl])

lemma wait_line_empty_Ret:
  "wait_line [] w = Ret r w' \<Longrightarrow> length (inp w') < length (inp w)"
  by (auto dest: wait_line_Ret_aux [OF refl])

lemma read_wait_Ret:
  assumes "sp_readline w = Ret rdata w1" and "wait_line rdata w1 = Ret r w2"
  shows "length (inp w2) < length (inp w)"
proof (cases "rdata = []")
  case True
  with assms(2) have "length (inp w2) < length (inp w1)"
    by (simp add: wait_line_empty_Ret)
  with sp_readline_inp [of w] assms(1) show ?thesis by simp
next
  case False
  with assms(1) have "length (inp w1) < length (inp w)"
    by (simp add: sp_readline_nonempty)
  with wait_line_Ret_inp [OF assms(2)] show ?thesis by simp
qed


lemma trace_emit: "trace (emit a w) = trace w @ [a]"
  by (simp add: emit_def)

lemma trace_actions:
  "trace (sp_write bs w) = trace w @ [Write bs]"
  "trace (sleep ms w) = trace w @ [Sleep ms]"
  "trace (logging lvl fmt args w) = trace w @ [Log lvl fmt args]"
  "trace (sp_close w) = trace w @ [Close]"
  by (simp_all add: sp_write_def sleep_def logging_def sp_close_def trace_emit)

lemma sp_readline_trace: "trace (world_of (sp_readline w)) = trace w"
  by (simp add: sp_readline_def split: list.splits event.splits)

lemma wait_line_trace_aux:
  "inp w = es \<Longrightarrow> trace (world_of (wait_line rdata w)) = trace w"
proof (induction es arbitrary: w rdata)
  case Nil
  then show ?case by (cases "rdata = []") (simp_all add: wait_line_unfold)
next
  case (Cons ev es)
  show ?case
  proof (cases "rdata = []")
    case False
    then show ?thesis by (simp add: wait_line_nonempty)
  next
    case True
    show ?thesis
    proof (cases ev)
      case (Line bs)
      with Cons.prems True have "wait_line rdata w = wait_line bs (w\<lparr>inp := es\<rparr>)"
        by (simp add: wait_line_Line)
      moreover have "trace (world_of (wait_line bs (w\<lparr>inp := es\<rparr>))) = trace (w\<lparr>inp := es\<rparr>)"
        by (rule Cons.IH) simp
      ultimately show ?thesis by simp
    next
      case (Raises e)
      with Cons.prems True show ?thesis by (simp add: wait_line_Raises)
    qed
  qed
qed

lemma wait_line_trace: "trace (world_of (wait_line rdata w)) = trace w"
  by (rule wait_line_trace_aux) simp

text \<open>Reading until a line is there: \<^verbatim>\<open>x = sp.readline()\<close> followed by the waiting loop.\<close>

lemma read_wait_trace:
  "trace (world_of (then_do (sp_readline w) wait_line)) = trace w"
proof (cases "sp_readline w")
  case (Ret r w1)
  with sp_readline_trace [of w] wait_line_trace [of r w1] show ?thesis by simp
next
  case (Exc e w1)
  with sp_readline_trace [of w] show ?thesis by simp
next
  case (Hang w1)
  with sp_readline_trace [of w] show ?thesis by simp
qed

lemma send_then_do:
  "send data w =
     then_do (then_do (sp_readline (sleep 200 (sp_write (encode (rstrip data @ CRLF)) w))) wait_line)
       (\<lambda>rdata w2. case decode (bstrip rdata) of
            None \<Rightarrow> Exc UnicodeDecodeError w2
          | Some r \<Rightarrow> Ret r (logging DEBUG ''Decoded response : %s'' [AStr r] w2))"
  by (simp add: send_def split: result.splits)

lemma send_trace:
  "trace (world_of (send data w)) =
     trace w @ [Write (encode (rstrip data @ CRLF)), Sleep 200] @
     (case send data w of Ret r _ \<Rightarrow> [Log DEBUG ''Decoded response : %s'' [AStr r]] | _ \<Rightarrow> [])"
proof -
  let ?w0 = "sleep 200 (sp_write (encode (rstrip data @ CRLF)) w)"
  have t0: "trace ?w0 = trace w @ [Write (encode (rstrip data @ CRLF)), Sleep 200]"
    by (simp add: trace_actions)
  have rw: "trace (world_of (then_do (sp_readline ?w0) wait_line)) = trace ?w0"
    by (rule read_wait_trace)
  show ?thesis
  proof (cases "then_do (sp_readline ?w0) wait_line")
    case (Ret rdata w2)
    with rw t0 show ?thesis
      by (simp add: send_then_do trace_actions split: option.splits)
  next
    case (Exc e w2)
    with rw t0 show ?thesis by (simp add: send_then_do)
  next
    case (Hang w2)
    with rw t0 show ?thesis by (simp add: send_then_do)
  qed
qed

lemma send_Ret_inp:
  "send data w = Ret r w' \<Longrightarrow> length (inp w') < length (inp w)"
proof -
  assume a: "send data w = Ret r w'"
  then obtain rdata w1 rdata' w2 where
    rd: "sp_readline (sleep 200 (sp_write (encode (rstrip data @ CRLF)) w)) = Ret rdata w1"
    and wl: "wait_line rdata w1 = Ret rdata' w2"
    and w': "w' = logging DEBUG ''Decoded response : %s'' [AStr r] w2"
    by (auto simp: send_def split: result.splits option.splits)
  from read_wait_Ret [OF rd wl] w' show ?thesis
    by (simp add: inp_actions)
qed


text \<open>A chain of calls that never lengthens the script.\<close>

lemma then_do_inp:
  assumes "length (inp (world_of m)) \<le> n"
    and "\<And>x w. length (inp w) \<le> n \<Longrightarrow> length (inp (world_of (f x w))) \<le> n"
  shows "length (inp (world_of (then_do m f))) \<le> n"
  using assms by (cases m) simp_all

lemma then_do_Ret:
  "then_do m f = Ret y w' \<Longrightarrow> \<exists>x w1. m = Ret x w1 \<and> f x w1 = Ret y w'"
  by (cases m) simp_all

lemma send_inp: "length (inp (world_of (send data w))) \<le> length (inp w)"
proof -
  let ?w0 = "sleep 200 (sp_write (encode (rstrip data @ CRLF)) w)"
  have "length (inp (world_of (then_do (sp_readline ?w0) wait_line))) \<le> length (inp w)"
  proof (rule then_do_inp)
    show "length (inp (world_of (sp_readline ?w0))) \<le> length (inp w)"
      using sp_readline_inp [of ?w0] by (simp add: inp_actions)
  next
    fix x and w1 :: world
    assume "length (inp w1) \<le> length (inp w)"
    with wait_line_inp [of x w1]
    show "length (inp (world_of (wait_line x w1))) \<le> length (inp w)" by simp
  qed
  then show ?thesis
    unfolding send_then_do
    by (rule then_do_inp) (simp add: inp_actions split: option.splits)
qed

lemma send_inp_le:
  "length (inp w) \<le> n \<Longrightarrow> length (inp (world_of (send data w))) \<le> n"
  using send_inp [of data w] by simp

section \<open>lora\_setup\<close>

definition data_rate_of :: "int \<Rightarrow> int" where
  "data_rate_of spreading_factor = \<bar>spreading_factor - 12\<bar>"

text \<open>Lines 173 to 181: the loop \<^verbatim>\<open>for channel in range(0,3)\<close>, over the list of its values.\<close>

fun channels :: "int list \<Rightarrow> world \<Rightarrow> unit result" where
  "channels [] w = Ret () w"
| "channels (channel # rest) w =
     then_do
       (send (''mac set ch dcycle '' @ str_int channel @ '' 1'')
          (logging INFO ''Setting channel %s duty cycle to  1.00'' [AInt channel] w))
       (\<lambda>response w.
          then_do
            (send (''mac set ch status '' @ str_int channel @ '' on'')
               (logging INFO ''Setting channel %s to on'' [AInt channel]
                  (logging INFO ''Set %s to dcycle response : %s''
                     [AInt channel, AStr response] w)))
            (\<lambda>response w.
               channels rest
                 (logging INFO ''Set %s on response : %s'' [AInt channel, AStr response] w)))"

text \<open>Lines 144 to 185: reset, identity, data rate, channels, save.\<close>

definition provision :: "int \<Rightarrow> world \<Rightarrow> unit result" where
  "provision data_rate w =
     then_do (send ''sys reset'' (logging INFO ''Resetting device'' [] w))
     (\<lambda>response w.
     then_do
       (send (''mac set appkey '' @ APPKEY)
          (logging INFO ''Setting APPKEY : %s'' [AStr APPKEY]
             (logging INFO ''Reset response : %s'' [AStr response] w)))
     (\<lambda>response w.
     then_do
       (send (''mac set appeui '' @ JOINEUI)
          (logging INFO ''Setting JOINEUI : %s'' [AStr JOINEUI]
             (logging INFO ''Set APPKEY response : %s'' [AStr response] w)))
     (\<lambda>response w.
     then_do
       (send (''mac set deveui '' @ DEVEUI)
          (logging INFO ''Setting DEVEUI : %s'' [AStr DEVEUI]
             (logging INFO ''Set JOINEUI response : %s'' [AStr response] w)))
     (\<lambda>response w.
     then_do
       (send (''mac set dr '' @ str_int data_rate)
          (logging INFO ''Setting the data-rate : %s, it's |SPREADING_FACTOR-12|''
             [AInt data_rate]
             (logging INFO ''Set DEVEUI response : %s'' [AStr response] w)))
     (\<lambda>response w.
     then_do (channels [0, 1, 2] (logging INFO ''Set data-rate : %s'' [AStr response] w))
     (\<lambda>_ w.
     then_do (send ''mac save'' (logging INFO ''Saving MAC Settings'' [] w))
     (\<lambda>response w.
        Ret () (logging INFO ''Saving mac settings response : %s'' [AStr response] w))))))))"

text \<open>Lines 187 to 194: the loop \<^verbatim>\<open>while not joining\<close>.\<close>

function join_loop :: "bool \<Rightarrow> world \<Rightarrow> unit result" where
  "join_loop joining w =
     (if \<not> joining then
        (case send ''mac join otaa'' (logging INFO ''Preparing to join the network'' [] w) of
           Ret response w1 \<Rightarrow>
             join_loop (if str_in ''ok'' response then True else joining)
               (sleep 2000
                  (logging INFO ''Mac join otaa response : %s'' [AStr response] w1))
         | Exc e w' \<Rightarrow> Exc e w'
         | Hang w' \<Rightarrow> Hang w')
      else Ret () w)"
  by pat_completeness auto
termination
  by (relation "measure (\<lambda>(joining, w). length (inp w))")
     (auto simp: inp_actions dest: send_Ret_inp)

declare join_loop.simps [simp del]

text \<open>Lines 196 to 205: the line that follows the accepted join command.\<close>

definition await_accept :: "world \<Rightarrow> bool result" where
  "await_accept w =
     then_do
       (sp_readline (sleep 2000 (logging INFO ''Wating to get the accepted response'' [] w)))
     (\<lambda>ret w.
     then_do (wait_line ret w)
     (\<lambda>ret w.
        (case decode (bstrip ret) of
           None \<Rightarrow> Exc UnicodeDecodeError w
         | Some response \<Rightarrow>
             (if response \<noteq> ''accepted''
              then Ret False (logging INFO ''Status of the join request : %s'' [AStr response] w)
              else Ret True (logging INFO ''Status of the join request : %s'' [AStr response] w)))))"

definition lora_setup :: "int \<Rightarrow> world \<Rightarrow> bool result" where
  "lora_setup spreading_factor w =
     then_do (provision (data_rate_of spreading_factor) w)
     (\<lambda>_ w. then_do (join_loop False w) (\<lambda>_ w. await_accept w))"

lemma channels_inp_le:
  "length (inp w) \<le> n \<Longrightarrow> length (inp (world_of (channels cs w))) \<le> n"
proof (induction cs arbitrary: w)
  case Nil
  then show ?case by simp
next
  case (Cons c cs)
  show ?case
    unfolding channels.simps
    by (intro then_do_inp send_inp_le Cons.IH) (simp_all add: inp_actions Cons.prems)
qed

lemma provision_inp_le:
  "length (inp w) \<le> n \<Longrightarrow> length (inp (world_of (provision dr w))) \<le> n"
  unfolding provision_def
  by (intro then_do_inp send_inp_le channels_inp_le) (simp_all add: inp_actions)

lemma join_loop_True: "join_loop True w = Ret () w"
  by (simp add: join_loop.simps)

lemma join_loop_False:
  "join_loop False w =
     (case send ''mac join otaa'' (logging INFO ''Preparing to join the network'' [] w) of
        Ret response w1 \<Rightarrow>
          join_loop (str_in ''ok'' response)
            (sleep 2000 (logging INFO ''Mac join otaa response : %s'' [AStr response] w1))
      | Exc e w' \<Rightarrow> Exc e w'
      | Hang w' \<Rightarrow> Hang w')"
  by (subst join_loop.simps) (simp split: result.splits)

lemma join_loop_inp_le:
  "length (inp w) \<le> n \<Longrightarrow> length (inp (world_of (join_loop joining w))) \<le> n"
proof (induction joining w rule: join_loop.induct)
  case (1 joining w)
  let ?w0 = "logging INFO ''Preparing to join the network'' [] w"
  show ?case
  proof (cases joining)
    case True
    with "1.prems" show ?thesis by (simp add: join_loop_True)
  next
    case False
    have s: "length (inp (world_of (send ''mac join otaa'' ?w0))) \<le> n"
      using "1.prems" by (intro send_inp_le) (simp add: inp_actions)
    show ?thesis
    proof (cases "send ''mac join otaa'' ?w0")
      case (Ret response w1)
      with s have "length (inp w1) \<le> n" by simp
      then have "length (inp (world_of (join_loop (if str_in ''ok'' response then True else joining)
               (sleep 2000 (logging INFO ''Mac join otaa response : %s'' [AStr response] w1))))) \<le> n"
        using False Ret by (intro "1.IH") (simp_all add: inp_actions)
      with False Ret show ?thesis
        by (cases "str_in ''ok'' response") (simp_all add: join_loop_False)
    next
      case (Exc e w1)
      with s False show ?thesis by (simp add: join_loop_False)
    next
      case (Hang w1)
      with s False show ?thesis by (simp add: join_loop_False)
    qed
  qed
qed

lemma await_accept_Ret_inp:
  assumes "await_accept w = Ret b w'"
  shows "length (inp w') < length (inp w)"
proof -
  let ?w0 = "sleep 2000 (logging INFO ''Wating to get the accepted response'' [] w)"
  from assms obtain ret w1 ret' w2 where rd: "sp_readline ?w0 = Ret ret w1"
    and wl: "wait_line ret w1 = Ret ret' w2"
    and w': "inp w' = inp w2"
    unfolding await_accept_def
    by (auto dest!: then_do_Ret simp: inp_actions split: option.splits if_splits)
  from read_wait_Ret [OF rd wl] w' show ?thesis by (simp add: inp_actions)
qed

lemma lora_setup_Ret_inp:
  assumes "lora_setup spreading_factor w = Ret b w'"
  shows "length (inp w') < length (inp w)"
proof -
  from assms obtain u w1 v w2 where p: "provision (data_rate_of spreading_factor) w = Ret u w1"
    and j: "join_loop False w1 = Ret v w2" and a: "await_accept w2 = Ret b w'"
    unfolding lora_setup_def by (auto dest!: then_do_Ret)
  from provision_inp_le [of w "length (inp w)" "data_rate_of spreading_factor"] p
  have "length (inp w1) \<le> length (inp w)" by simp
  moreover from join_loop_inp_le [of w1 "length (inp w1)" False] j
  have "length (inp w2) \<le> length (inp w1)" by simp
  moreover note await_accept_Ret_inp [OF a]
  ultimately show ?thesis by simp
qed


section \<open>main\<close>

definition encoded_message :: str where
  "encoded_message = hex (encode MESSAGE)"

definition command :: str where
  "command = ''mac tx cnf 220 '' @ encoded_message"

text \<open>
  Lines 261 to 264: the loop \<^verbatim>\<open>while not ret and tries < 5\<close>; it gives back the last
  read and the number of tries.
\<close>

function poll :: "bytes \<Rightarrow> nat \<Rightarrow> world \<Rightarrow> (bytes \<times> nat) result" where
  "poll ret tries w =
     (if ret = [] \<and> tries < 5 then
        (case sp_readline (sleep 1000 w) of
           Ret r w' \<Rightarrow> poll r (tries + 1) w'
         | Exc e w' \<Rightarrow> Exc e w'
         | Hang w' \<Rightarrow> Hang w')
      else Ret (ret, tries) w)"
  by pat_completeness auto
termination
  by (relation "measure (\<lambda>(ret, tries, w). 5 - tries)") auto

declare poll.simps [simp del]

text \<open>Lines 259 to 264: the first read and the polls after it.\<close>

definition follow_up :: "world \<Rightarrow> (bytes \<times> nat) result" where
  "follow_up w = then_do (sp_readline w) (\<lambda>ret w. poll ret 0 w)"

text \<open>Lines 246 to 249: the pause before an uplink.\<close>

definition before_uplink :: "world \<Rightarrow> world" where
  "before_uplink w =
     logging INFO (''Sending command '' @ [CHR 0x22] @ ''%s'' @ [CHR 0x22]) [AStr command]
       (sleep 10000 (logging INFO ''Waiting to send message'' [] w))"

text \<open>
  Lines 245 to 276: the body of the loop \<^verbatim>\<open>while error_counts <= 5\<close>, one uplink. It
  gives back the value of \<^verbatim>\<open>error_counts\<close> with which the loop goes on.
\<close>

definition attempt :: "nat \<Rightarrow> world \<Rightarrow> nat result" where
  "attempt error_counts w =
     then_do
       (send command (before_uplink w))
     (\<lambda>response w.
        if \<not> str_in ''ok'' response then
          Ret (error_counts + 1) (logging ERROR ''Could not send the command, retrying'' [] w)
        else
          then_do
            (follow_up (logging DEBUG ''Message successfuly sent through serial'' [] w))
          (\<lambda>(ret, tries) w.
             if ret = [] then
               Ret (error_counts + 1)
                 (logging ERROR ''No response, maybe collision or message lost'' [] w)
             else
               (case decode (bstrip ret) of
                  None \<Rightarrow> Exc UnicodeDecodeError w
                | Some decoded_response \<Rightarrow>
                    if \<not> str_in ''mac_rx'' decoded_response then
                      Ret error_counts
                        (logging INFO ''No mac_rx in response, continuing'' []
                           (logging INFO ''Got response %s'' [AStr decoded_response] w))
                    else
                      Ret error_counts
                        (logging DEBUG ''Payload : %s'' [AStr (last (split_sp decoded_response))]
                           (logging INFO ''Got a max_rx (downlink, processing)'' []
                              (logging INFO ''Got response %s'' [AStr decoded_response] w))))))"

lemma poll_stop: "ret \<noteq> [] \<or> 5 \<le> tries \<Longrightarrow> poll ret tries w = Ret (ret, tries) w"
  by (subst poll.simps) auto

lemma poll_step:
  "tries < 5 \<Longrightarrow>
   poll [] tries w =
     (case sp_readline (sleep 1000 w) of
        Ret r w' \<Rightarrow> poll r (tries + 1) w'
      | Exc e w' \<Rightarrow> Exc e w'
      | Hang w' \<Rightarrow> Hang w')"
  by (subst poll.simps) simp

lemma poll_inp_le:
  "length (inp w) \<le> n \<Longrightarrow> length (inp (world_of (poll ret tries w))) \<le> n"
proof (induction ret tries w rule: poll.induct)
  case (1 ret tries w)
  show ?case
  proof (cases "ret = [] \<and> tries < 5")
    case False
    with "1.prems" show ?thesis by (auto simp: poll_stop)
  next
    case True
    have s: "length (inp (world_of (sp_readline (sleep 1000 w)))) \<le> n"
      using sp_readline_inp [of "sleep 1000 w"] "1.prems" by (simp add: inp_actions)
    show ?thesis
    proof (cases "sp_readline (sleep 1000 w)")
      case (Ret r w1)
      with s have "length (inp w1) \<le> n" by simp
      with True Ret have "length (inp (world_of (poll r (tries + 1) w1))) \<le> n"
        by (intro "1.IH") simp_all
      with True Ret show ?thesis by (simp add: poll_step)
    next
      case (Exc e w1)
      with s True show ?thesis by (simp add: poll_step)
    next
      case (Hang w1)
      with s True show ?thesis by (simp add: poll_step)
    qed
  qed
qed

lemma follow_up_inp_le:
  "length (inp w) \<le> n \<Longrightarrow> length (inp (world_of (follow_up w))) \<le> n"
  unfolding follow_up_def
  using sp_readline_inp [of w] by (intro then_do_inp poll_inp_le) simp_all

lemma attempt_Ret_inp:
  assumes "attempt error_counts w = Ret ec w'"
  shows "length (inp w') < length (inp w)"
proof -
  let ?w0 = "before_uplink w"
  from assms obtain response w1 where s: "send command ?w0 = Ret response w1"
    and rest: "(if \<not> str_in ''ok'' response then
          Ret (error_counts + 1) (logging ERROR ''Could not send the command, retrying'' [] w1)
        else
          then_do
            (follow_up (logging DEBUG ''Message successfuly sent through serial'' [] w1))
          (\<lambda>(ret, tries) w.
             if ret = [] then
               Ret (error_counts + 1)
                 (logging ERROR ''No response, maybe collision or message lost'' [] w)
             else
               (case decode (bstrip ret) of
                  None \<Rightarrow> Exc UnicodeDecodeError w
                | Some decoded_response \<Rightarrow>
                    if \<not> str_in ''mac_rx'' decoded_response then
                      Ret error_counts
                        (logging INFO ''No mac_rx in response, continuing'' []
                           (logging INFO ''Got response %s'' [AStr decoded_response] w))
                    else
                      Ret error_counts
                        (logging DEBUG ''Payload : %s'' [AStr (last (split_sp decoded_response))]
                           (logging INFO ''Got a max_rx (downlink, processing)'' []
                              (logging INFO ''Got response %s'' [AStr decoded_response] w)))))) = Ret ec w'"
    unfolding attempt_def by (auto dest!: then_do_Ret)
  from send_Ret_inp [OF s] have l1: "length (inp w1) < length (inp w)"
    by (simp add: before_uplink_def inp_actions)
  have "length (inp w') \<le> length (inp w1)"
  proof (cases "str_in ''ok'' response")
    case False
    with rest show ?thesis by (auto simp: inp_actions)
  next
    case True
    with rest obtain ret tries w2 where
      f: "follow_up (logging DEBUG ''Message successfuly sent through serial'' [] w1) = Ret (ret, tries) w2"
      and w': "inp w' = inp w2"
      by (auto dest!: then_do_Ret simp: inp_actions split: if_splits option.splits)
    from follow_up_inp_le [of "logging DEBUG ''Message successfuly sent through serial'' [] w1" "length (inp w1)"] f
    have "length (inp w2) \<le> length (inp w1)" by (simp add: inp_actions)
    with w' show ?thesis by simp
  qed
  with l1 show ?thesis by simp
qed

text \<open>Lines 242 to 276: the loop \<^verbatim>\<open>while error_counts <= 5\<close>.\<close>

function tx_loop :: "nat \<Rightarrow> world \<Rightarrow> nat result" where
  "tx_loop error_counts w =
     (if error_counts \<le> 5 then
        (case attempt error_counts w of
           Ret error_counts' w' \<Rightarrow> tx_loop error_counts' w'
         | Exc e w' \<Rightarrow> Exc e w'
         | Hang w' \<Rightarrow> Hang w')
      else Ret error_counts w)"
  by pat_completeness auto
termination
  by (relation "measure (\<lambda>(error_counts, w). length (inp w))")
     (auto dest: attempt_Ret_inp)

declare tx_loop.simps [simp del]

text \<open>Lines 235 to 237: the loop \<^verbatim>\<open>while not lora_setup(sp,SPREADING_FACTOR)\<close>.\<close>

function connect :: "world \<Rightarrow> unit result" where
  "connect w =
     (case lora_setup SPREADING_FACTOR w of
        Ret joined w' \<Rightarrow>
          if \<not> joined then
            connect (sleep 3000 (logging ERROR ''Failed to connect, retrying in 3s'' [] w'))
          else Ret () w'
      | Exc e w' \<Rightarrow> Exc e w'
      | Hang w' \<Rightarrow> Hang w')"
  by pat_completeness auto
termination
  by (relation "measure (\<lambda>w. length (inp w))")
     (auto simp: inp_actions dest: lora_setup_Ret_inp)

declare connect.simps [simp del]


lemma tx_loop_stop: "5 < error_counts \<Longrightarrow> tx_loop error_counts w = Ret error_counts w"
  by (subst tx_loop.simps) simp

lemma tx_loop_step:
  "error_counts \<le> 5 \<Longrightarrow>
   tx_loop error_counts w =
     (case attempt error_counts w of
        Ret error_counts' w' \<Rightarrow> tx_loop error_counts' w'
      | Exc e w' \<Rightarrow> Exc e w'
      | Hang w' \<Rightarrow> Hang w')"
  by (subst tx_loop.simps) simp

lemma attempt_inp_le:
  "length (inp w) \<le> n \<Longrightarrow> length (inp (world_of (attempt error_counts w))) \<le> n"
  unfolding attempt_def
  by (intro then_do_inp send_inp_le)
     (auto simp: before_uplink_def inp_actions split: option.splits
           intro!: then_do_inp follow_up_inp_le)

lemma tx_loop_inp_le:
  "length (inp w) \<le> n \<Longrightarrow> length (inp (world_of (tx_loop error_counts w))) \<le> n"
proof (induction error_counts w rule: tx_loop.induct)
  case (1 error_counts w)
  show ?case
  proof (cases "error_counts \<le> 5")
    case False
    with "1.prems" show ?thesis by (simp add: tx_loop_stop)
  next
    case True
    note a = attempt_inp_le [OF "1.prems", of error_counts]
    show ?thesis
    proof (cases "attempt error_counts w")
      case (Ret ec w1)
      with a have "length (inp w1) \<le> n" by simp
      with True Ret have "length (inp (world_of (tx_loop ec w1))) \<le> n"
        by (intro "1.IH") simp_all
      with True Ret show ?thesis by (simp add: tx_loop_step)
    next
      case (Exc e w1)
      with a True show ?thesis by (simp add: tx_loop_step)
    next
      case (Hang w1)
      with a True show ?thesis by (simp add: tx_loop_step)
    qed
  qed
qed

lemma connect_Ret_inp: "connect w = Ret u w' \<Longrightarrow> length (inp w') < length (inp w)"
proof (induction w rule: connect.induct)
  case (1 w)
  from "1.prems" obtain joined w1 where ls: "lora_setup SPREADING_FACTOR w = Ret joined w1"
    by (subst (asm) connect.simps) (auto split: result.splits)
  note l1 = lora_setup_Ret_inp [OF ls]
  show ?case
  proof (cases joined)
    case True
    with "1.prems" ls have "w' = w1" by (subst (asm) connect.simps) simp
    with l1 show ?thesis by simp
  next
    case False
    with "1.prems" ls
    have "connect (sleep 3000 (logging ERROR ''Failed to connect, retrying in 3s'' [] w1)) = Ret u w'"
      by (subst (asm) connect.simps) simp
    from "1.IH" [OF ls _ this] False l1 show ?thesis by (simp add: inp_actions)
  qed
qed

text \<open>Lines 233 to 276: the loop \<^verbatim>\<open>while True\<close>. It never returns.\<close>

function main_loop :: "world \<Rightarrow> unit result" where
  "main_loop w =
     (case connect w of
        Ret _ w1 \<Rightarrow>
          (case tx_loop 0 (logging INFO ''Connected to LoRa network'' [] w1) of
             Ret _ w2 \<Rightarrow> main_loop w2
           | Exc e w' \<Rightarrow> Exc e w'
           | Hang w' \<Rightarrow> Hang w')
      | Exc e w' \<Rightarrow> Exc e w'
      | Hang w' \<Rightarrow> Hang w')"
  by pat_completeness auto
termination
proof (relation "measure (\<lambda>w. length (inp w))")
  show "wf (measure (\<lambda>w. length (inp w)))" by simp
next
  fix w :: world and u w1 ec w2
  assume c: "connect w = Ret u w1"
    and t: "tx_loop 0 (logging INFO ''Connected to LoRa network'' [] w1) = Ret ec w2"
  from tx_loop_inp_le [of "logging INFO ''Connected to LoRa network'' [] w1" "length (inp w1)" 0] t
  have "length (inp w2) \<le> length (inp w1)" by (simp add: inp_actions)
  with connect_Ret_inp [OF c] show "(w2, w) \<in> measure (\<lambda>w. length (inp w))" by simp
qed

declare main_loop.simps [simp del]

text \<open>
  Lines 72 to 84. \<open>port_error\<close> is what the environment decides: the exception that
  configuring or opening the port raises, if any.
\<close>

definition setup_serial :: "world \<Rightarrow> unit result" where
  "setup_serial w =
     (case port_error w of
        None \<Rightarrow> Ret () w
      | Some exception \<Rightarrow>
          if exception = ValueError \<or> exception = SerialException
          then Exc exception (logging CRITICAL ''Could not open the serial connection.'' [] w)
          else Exc exception w)"

text \<open>
  Lines 214 to 280. The value is what \<^verbatim>\<open>main\<close> returns: \<open>Some 1\<close>, \<open>Some 0\<close>, or
  Python's \<^verbatim>\<open>None\<close> at the end of the body.
\<close>

definition main :: "world \<Rightarrow> int option result" where
  "main w =
     (case setup_serial w of
        Exc err w' \<Rightarrow>
          if err = ValueError \<or> err = SerialException
          then Ret (Some 1)
                 (logging ERROR ''Failed to create the serial connection, %s:%s''
                    [AClass err, AExc err] w')
          else Exc err w'
      | Hang w' \<Rightarrow> Hang w'
      | Ret sp w1 \<Rightarrow>
          (case main_loop w1 of
             Exc e w' \<Rightarrow>
               if e = KeyboardInterrupt
               then Ret (Some 0) (sp_close (logging INFO ''KeyboardInterrupt, ending program'' [] w'))
               else Exc e w'
           | Hang w' \<Rightarrow> Hang w'
           | Ret _ w' \<Rightarrow> Ret None w'))"

text \<open>
  Lines 283 to 285, the script itself: it calls \<^verbatim>\<open>main()\<close> and drops what it returns.
  A script that runs to its end leaves the interpreter with exit status 0; an exception
  that nothing catches ends it with a traceback; a call that never returns never ends it.
\<close>

datatype ending = Exited int | Uncaught exn | Never

definition program :: "world \<Rightarrow> ending" where
  "program w =
     (case main (logging INFO ''Starting program RN2483'' [] w) of
        Ret _ _ \<Rightarrow> Exited 0
      | Exc e _ \<Rightarrow> Uncaught e
      | Hang _ \<Rightarrow> Never)"

section \<open>Waiting reads\<close>

text \<open>
  An empty read is a time-out. What a waiting read sees is the script without the
  time-outs it starts with.
\<close>

definition silent :: "event \<Rightarrow> bool" where
  "silent e = (e = Line [])"

definition pending :: "event list \<Rightarrow> event list" where
  "pending es = dropWhile silent es"

fun arrival :: "world \<Rightarrow> event list \<Rightarrow> bytes result" where
  "arrival w [] = Hang (w\<lparr>inp := []\<rparr>)"
| "arrival w (Line l # rest) = Ret l (w\<lparr>inp := rest\<rparr>)"
| "arrival w (Raises e # rest) = Exc e (w\<lparr>inp := rest\<rparr>)"

lemma arrival_inp [simp]: "arrival (w\<lparr>inp := es\<rparr>) xs = arrival w xs"
  by (cases "(w, xs)" rule: arrival.cases) simp_all

lemma pending_simps [simp]:
  "pending [] = []"
  "pending (Line [] # es) = pending es"
  "l \<noteq> [] \<Longrightarrow> pending (Line l # es) = Line l # es"
  "pending (Raises e # es) = Raises e # es"
  by (simp_all add: pending_def silent_def)

lemma wait_line_pending: "inp w = es \<Longrightarrow> wait_line [] w = arrival w (pending es)"
proof (induction es arbitrary: w)
  case Nil
  then show ?case by (simp add: wait_line_silent)
next
  case (Cons ev es)
  show ?case
  proof (cases ev)
    case (Line bs)
    show ?thesis
    proof (cases "bs = []")
      case True
      with Line Cons.prems have "wait_line [] w = wait_line [] (w\<lparr>inp := es\<rparr>)"
        by (simp add: wait_line_Line)
      also have "\<dots> = arrival (w\<lparr>inp := es\<rparr>) (pending es)"
        by (rule Cons.IH) simp
      finally show ?thesis using True Line by simp
    next
      case False
      with Line Cons.prems show ?thesis
        by (simp add: wait_line_Line wait_line_nonempty)
    qed
  next
    case (Raises e)
    with Cons.prems show ?thesis by (simp add: wait_line_Raises)
  qed
qed

lemma read_wait_pending:
  "then_do (sp_readline w) wait_line = arrival w (pending (inp w))"
proof (cases "inp w")
  case Nil
  then have "sp_readline w = Ret [] w" by (simp add: sp_readline_def)
  with Nil wait_line_pending [of w "[]"] show ?thesis by simp
next
  case (Cons ev es)
  show ?thesis
  proof (cases ev)
    case (Line bs)
    with Cons have rd: "sp_readline w = Ret bs (w\<lparr>inp := es\<rparr>)"
      by (simp add: sp_readline_def)
    show ?thesis
    proof (cases "bs = []")
      case True
      with rd Cons Line wait_line_pending [of "w\<lparr>inp := es\<rparr>" es] show ?thesis
        by simp
    next
      case False
      with rd Cons Line show ?thesis
        by (simp add: wait_line_nonempty)
    qed
  next
    case (Raises e)
    with Cons show ?thesis by (simp add: sp_readline_def)
  qed
qed

text \<open>What \<open>send\<close> does, by the first event that is not a time-out.\<close>

definition sent :: "str \<Rightarrow> world \<Rightarrow> world" where
  "sent data w = sleep 200 (sp_write (encode (rstrip data @ CRLF)) w)"

lemma send_pending:
  "send data w =
     (case pending (inp w) of
        [] \<Rightarrow> Hang ((sent data w)\<lparr>inp := []\<rparr>)
      | Line l # rest \<Rightarrow>
          (case decode (bstrip l) of
             None \<Rightarrow> Exc UnicodeDecodeError ((sent data w)\<lparr>inp := rest\<rparr>)
           | Some r \<Rightarrow>
               Ret r (logging DEBUG ''Decoded response : %s'' [AStr r]
                        ((sent data w)\<lparr>inp := rest\<rparr>)))
      | Raises e # rest \<Rightarrow> Exc e ((sent data w)\<lparr>inp := rest\<rparr>))"
proof -
  have i: "inp (sent data w) = inp w" by (simp add: sent_def inp_actions)
  show ?thesis
    unfolding send_then_do sent_def [symmetric] read_wait_pending i
    by (simp split: list.splits event.splits)
qed


section \<open>Properties of the text functions\<close>









section \<open>Polling for the follow-up line\<close>








section \<open>Tokens of a line\<close>

text \<open>
  Two readings of "the last token" of a line: the text after its last space, and its last
  run of characters that are not whitespace (as \<^verbatim>\<open>split()\<close> without an argument
  delimits them; whitespace here is the ASCII part of what \<^verbatim>\<open>str\<close> takes for it).
  \<open>tab_line\<close> is a line on which the two differ.
\<close>

definition after_last_space :: "str \<Rightarrow> str" where
  "after_last_space s = rev (takeWhile (\<lambda>c. c \<noteq> CHR '' '') (rev s))"

definition uspace :: "char \<Rightarrow> bool" where
  "uspace c = ((9 \<le> byte c \<and> byte c \<le> 13) \<or> (28 \<le> byte c \<and> byte c \<le> 32))"

definition last_token :: "str \<Rightarrow> str" where
  "last_token s = rev (takeWhile (\<lambda>c. \<not> uspace c) (dropWhile uspace (rev s)))"


definition tab_line :: str where
  "tab_line = ''mac_rx 1'' @ [CHR 0x09] @ ''a1b2c3''"

section \<open>One uplink\<close>

lemma split_sp_nonempty: "split_sp s \<noteq> []"
  by (induction s) (auto split: list.splits)

lemma split_sp_no_space: "CHR '' '' \<notin> set s \<Longrightarrow> split_sp s = [s]"
  by (induction s) auto

lemma split_sp_space: "CHR '' '' \<in> set s \<Longrightarrow> \<exists>p q qs. split_sp s = p # q # qs"
proof (induction s)
  case Nil
  then show ?case by simp
next
  case (Cons c cs)
  show ?case
  proof (cases "c = CHR '' ''")
    case True
    then show ?thesis using split_sp_nonempty [of cs] by (cases "split_sp cs") auto
  next
    case False
    with Cons.prems have "CHR '' '' \<in> set cs" by simp
    from Cons.IH [OF this] False show ?thesis by auto
  qed
qed

lemma after_last_space_Cons:
  "after_last_space (c # cs) =
     (if CHR '' '' \<in> set cs then after_last_space cs
      else if c = CHR '' '' then cs else c # cs)"
  by (auto simp: after_last_space_def takeWhile_append)

lemma last_split_sp: "last (split_sp s) = after_last_space s"
proof (induction s)
  case Nil
  then show ?case by (simp add: after_last_space_def)
next
  case (Cons c cs)
  show ?case
  proof (cases "CHR '' '' \<in> set cs")
    case True
    from split_sp_space [OF True] obtain p q qs where s: "split_sp cs = p # q # qs" by blast
    with Cons.IH True show ?thesis by (simp add: after_last_space_Cons)
  next
    case False
    then show ?thesis by (simp add: after_last_space_Cons split_sp_no_space)
  qed
qed

lemma rstrip_command: "rstrip command = command"
  by code_simp

lemma line_nonempty: "line s \<noteq> []"
  by (simp add: line_def CRLF_def)

lemma decode_ok: "decode (bstrip (line ''ok'')) = Some ''ok''"
  by code_simp

lemma ok_in_ok: "str_in ''ok'' ''ok''"
  by code_simp

lemmas run_simps =
  send_pending sent_def before_uplink_def sleep_def sp_write_def logging_def emit_def
  world0_def encode_def


lemma follow_up_line:
  "inp w = Line l # rest \<Longrightarrow> l \<noteq> [] \<Longrightarrow> follow_up w = Ret (l, 0) (w\<lparr>inp := rest\<rparr>)"
  by (simp add: follow_up_def sp_readline_def poll_stop)

lemma attempt_follow_up:
  assumes "send command (before_uplink w) = Ret response w1"
    and "str_in ''ok'' response"
    and "follow_up (logging DEBUG ''Message successfuly sent through serial'' [] w1) =
           Ret (ret, tries) w2"
    and "ret \<noteq> []"
    and "decode (bstrip ret) = Some decoded"
  shows "attempt error_counts w =
     Ret error_counts
       (if str_in ''mac_rx'' decoded then
          logging DEBUG ''Payload : %s'' [AStr (last (split_sp decoded))]
            (logging INFO ''Got a max_rx (downlink, processing)'' []
               (logging INFO ''Got response %s'' [AStr decoded] w2))
        else
          logging INFO ''No mac_rx in response, continuing'' []
            (logging INFO ''Got response %s'' [AStr decoded] w2))"
  using assms by (simp add: attempt_def)

section \<open>The verdicts of a session\<close>

text \<open>
  How an uplink attempt ended can be read off the log: the two error records of lines 252
  and 267 say that it failed, the record of line 270 that a follow-up line came.
\<close>

datatype verdict = Failed | Answered

fun verdict_of :: "action \<Rightarrow> verdict option" where
  "verdict_of (Log lvl fmt args) =
     (if lvl = ERROR \<and> fmt = ''Could not send the command, retrying'' then Some Failed
      else if lvl = ERROR \<and> fmt = ''No response, maybe collision or message lost''
      then Some Failed
      else if lvl = INFO \<and> fmt = ''Got response %s'' then Some Answered
      else None)"
| "verdict_of _ = None"

fun verdicts :: "action list \<Rightarrow> verdict list" where
  "verdicts [] = []"
| "verdicts (a # tr) =
     (case verdict_of a of None \<Rightarrow> verdicts tr | Some v \<Rightarrow> v # verdicts tr)"

text \<open>What a call added to the trace.\<close>

definition added :: "world \<Rightarrow> 'a result \<Rightarrow> action list" where
  "added w r = drop (length (trace w)) (trace (world_of r))"

text \<open>A script on which one answered uplink comes between six refused ones.\<close>

definition interleaved :: "event list" where
  "interleaved =
     [Line (line ''busy''), Line (line ''ok''), Line (line ''mac_tx_ok''),
      Line (line ''busy''), Line (line ''busy''), Line (line ''busy''),
      Line (line ''busy''), Line (line ''busy'')]"

lemma verdicts_append [simp]: "verdicts (tr @ tr') = verdicts tr @ verdicts tr'"
  by (induction tr) (simp_all split: option.splits)

lemma verdicts_replicate_Sleep [simp]: "verdicts (replicate n (Sleep ms)) = []"
  by (induction n) simp_all

lemma added_eq: "trace (world_of r) = trace w @ t \<Longrightarrow> added w r = t"
  by (simp add: added_def)

lemma poll_trace: "\<exists>k. trace (world_of (poll ret tries w)) = trace w @ replicate k (Sleep 1000)"
proof (induction ret tries w rule: poll.induct)
  case (1 ret tries w)
  show ?case
  proof (cases "ret = [] \<and> tries < 5")
    case False
    then have "poll ret tries w = Ret (ret, tries) w" by (auto simp: poll_stop)
    then show ?thesis by (auto intro: exI [of _ 0])
  next
    case True
    have t1: "trace (world_of (sp_readline (sleep 1000 w))) = trace w @ [Sleep 1000]"
      using sp_readline_trace [of "sleep 1000 w"] by (simp add: trace_actions)
    show ?thesis
    proof (cases "sp_readline (sleep 1000 w)")
      case (Ret r w1)
      from "1.IH" [OF True Ret] obtain k where
        "trace (world_of (poll r (tries + 1) w1)) = trace w1 @ replicate k (Sleep 1000)" by blast
      with t1 Ret True have "trace (world_of (poll ret tries w)) =
          trace w @ replicate (Suc k) (Sleep 1000)"
        by (simp add: poll_step)
      then show ?thesis by blast
    next
      case (Exc e w1)
      with t1 True have "trace (world_of (poll ret tries w)) = trace w @ replicate 1 (Sleep 1000)"
        by (simp add: poll_step)
      then show ?thesis by blast
    next
      case (Hang w1)
      with t1 True have "trace (world_of (poll ret tries w)) = trace w @ replicate 1 (Sleep 1000)"
        by (simp add: poll_step)
      then show ?thesis by blast
    qed
  qed
qed

lemma follow_up_trace:
  "\<exists>k. trace (world_of (follow_up w)) = trace w @ replicate k (Sleep 1000)"
proof (cases "sp_readline w")
  case (Ret r w1)
  with sp_readline_trace [of w] poll_trace [of r 0 w1] show ?thesis
    by (simp add: follow_up_def)
next
  case (Exc e w1)
  with sp_readline_trace [of w] show ?thesis
    by (auto simp: follow_up_def intro: exI [of _ 0])
next
  case (Hang w1)
  with sp_readline_trace [of w] show ?thesis
    by (auto simp: follow_up_def intro: exI [of _ 0])
qed

text \<open>
  One attempt adds at most one verdict: \<open>Failed\<close> when it gives back
  \<open>error_counts + 1\<close>, \<open>Answered\<close> when it gives back \<open>error_counts\<close>, none when
  it does not return.
\<close>

lemma attempt_verdict:
  "\<exists>t. trace (world_of (attempt ec w)) = trace w @ t \<and>
       (case attempt ec w of
          Ret ec' w' \<Rightarrow>
            (ec' = ec + 1 \<and> verdicts t = [Failed] \<and> verdict_of (last t) = Some Failed) \<or>
            (ec' = ec \<and> verdicts t = [Answered])
        | _ \<Rightarrow> verdicts t = [])"
proof -
  let ?w0 = "before_uplink w"
  have t0: "trace ?w0 = trace w @ [Log INFO ''Waiting to send message'' [], Sleep 10000,
      Log INFO (''Sending command '' @ [CHR 0x22] @ ''%s'' @ [CHR 0x22]) [AStr command]]"
    by (simp add: before_uplink_def trace_actions)
  note st = send_trace [of command ?w0]
  show ?thesis
  proof (cases "send command ?w0")
    case (Exc e w1)
    with st t0 show ?thesis by (simp add: attempt_def)
  next
    case (Hang w1)
    with st t0 show ?thesis by (simp add: attempt_def)
  next
    case (Ret response w1)
    with st t0 have t1: "trace w1 = trace w @ [Log INFO ''Waiting to send message'' [], Sleep 10000,
      Log INFO (''Sending command '' @ [CHR 0x22] @ ''%s'' @ [CHR 0x22]) [AStr command],
      Write (encode (rstrip command @ CRLF)), Sleep 200,
      Log DEBUG ''Decoded response : %s'' [AStr response]]"
      by simp
    show ?thesis
    proof (cases "str_in ''ok'' response")
      case False
      with Ret t1 show ?thesis by (simp add: attempt_def trace_actions)
    next
      case True
      let ?w2 = "logging DEBUG ''Message successfuly sent through serial'' [] w1"
      from follow_up_trace [of ?w2] obtain k where
        fk: "trace (world_of (follow_up ?w2)) = trace ?w2 @ replicate k (Sleep 1000)" by blast
      show ?thesis
      proof (cases "follow_up ?w2")
        case (Exc e w3)
        with fk Ret True t1 show ?thesis by (simp add: attempt_def trace_actions)
      next
        case (Hang w3)
        with fk Ret True t1 show ?thesis by (simp add: attempt_def trace_actions)
      next
        case (Ret rt w3)
        obtain ret tries where rt: "rt = (ret, tries)" by (cases rt)
        from fk Ret have t3: "trace w3 = trace ?w2 @ replicate k (Sleep 1000)" by simp
        show ?thesis
        proof (cases "ret = []")
          case True
          with \<open>send command ?w0 = Ret response w1\<close> \<open>str_in ''ok'' response\<close> Ret rt t1 t3
          show ?thesis by (simp add: attempt_def trace_actions)
        next
          case False
          show ?thesis
          proof (cases "decode (bstrip ret)")
            case None
            with False \<open>send command ?w0 = Ret response w1\<close> \<open>str_in ''ok'' response\<close> Ret rt t1 t3
            show ?thesis by (simp add: attempt_def trace_actions)
          next
            case (Some d)
            with False \<open>send command ?w0 = Ret response w1\<close> \<open>str_in ''ok'' response\<close> Ret rt t1 t3
            show ?thesis by (simp add: attempt_def trace_actions)
          qed
        qed
      qed
    qed
  qed
qed

lemma tx_loop_verdicts:
  "\<exists>t. trace (world_of (tx_loop ec w)) = trace w @ t \<and>
       (case tx_loop ec w of
          Ret ec' w' \<Rightarrow>
            ec' = ec + count_list (verdicts t) Failed \<and> 5 < ec' \<and>
            (ec \<le> 5 \<longrightarrow> ec' = 6 \<and> t \<noteq> [] \<and> verdict_of (last t) = Some Failed)
        | _ \<Rightarrow> ec + count_list (verdicts t) Failed \<le> 5)"
proof (induction ec w rule: tx_loop.induct)
  case (1 ec w)
  show ?case
  proof (cases "ec \<le> 5")
    case False
    then have "tx_loop ec w = Ret ec w" by (simp add: tx_loop_stop)
    with False show ?thesis by simp
  next
    case True
    from attempt_verdict [of ec w] obtain t1 where
      t1: "trace (world_of (attempt ec w)) = trace w @ t1"
      and v1: "(case attempt ec w of
          Ret ec' w' \<Rightarrow>
            (ec' = ec + 1 \<and> verdicts t1 = [Failed] \<and> verdict_of (last t1) = Some Failed) \<or>
            (ec' = ec \<and> verdicts t1 = [Answered])
        | _ \<Rightarrow> verdicts t1 = [])" by blast
    show ?thesis
    proof (cases "attempt ec w")
      case (Exc e w1)
      with True t1 v1 show ?thesis by (simp add: tx_loop_step)
    next
      case (Hang w1)
      with True t1 v1 show ?thesis by (simp add: tx_loop_step)
    next
      case (Ret ec1 w1)
      with True have step: "tx_loop ec w = tx_loop ec1 w1" by (simp add: tx_loop_step)
      from Ret t1 have tw1: "trace w1 = trace w @ t1" by simp
      from Ret v1 have c1: "ec1 = ec + count_list (verdicts t1) Failed" by auto
      from Ret v1 have ne1: "t1 \<noteq> []" by auto
      show ?thesis
      proof (cases "ec1 \<le> 5")
        case False
        with Ret v1 True have f: "ec1 = ec + 1" "verdict_of (last t1) = Some Failed" by auto
        from False have "tx_loop ec1 w1 = Ret ec1 w1" by (simp add: tx_loop_stop)
        with step tw1 c1 ne1 f False True show ?thesis by auto
      next
        case le: True
        from "1.IH" [OF True Ret] obtain t2 where
          t2: "trace (world_of (tx_loop ec1 w1)) = trace w1 @ t2"
          and v2: "(case tx_loop ec1 w1 of
          Ret ec' w' \<Rightarrow>
            ec' = ec1 + count_list (verdicts t2) Failed \<and> 5 < ec' \<and>
            (ec1 \<le> 5 \<longrightarrow> ec' = 6 \<and> t2 \<noteq> [] \<and> verdict_of (last t2) = Some Failed)
        | _ \<Rightarrow> ec1 + count_list (verdicts t2) Failed \<le> 5)" by blast
        have tt: "trace (world_of (tx_loop ec w)) = trace w @ (t1 @ t2)"
          using step t2 tw1 by simp
        have "(case tx_loop ec w of
          Ret ec' w' \<Rightarrow>
            ec' = ec + count_list (verdicts (t1 @ t2)) Failed \<and> 5 < ec' \<and>
            (ec \<le> 5 \<longrightarrow> ec' = 6 \<and> t1 @ t2 \<noteq> [] \<and> verdict_of (last (t1 @ t2)) = Some Failed)
        | _ \<Rightarrow> ec + count_list (verdicts (t1 @ t2)) Failed \<le> 5)"
          using v2 c1 le unfolding step by (cases "tx_loop ec1 w1") auto
        with tt show ?thesis by blast
      qed
    qed
  qed
qed

lemma inp_sent [simp]: "inp (sent data w) = inp w"
  by (simp add: sent_def inp_actions)

lemma inp_before_uplink [simp]: "inp (before_uplink w) = inp w"
  by (simp add: before_uplink_def inp_actions)

lemma trace_sent: "trace (sent data w) = trace w @ [Write (encode (rstrip data @ CRLF)), Sleep 200]"
  by (simp add: sent_def trace_actions)

lemma verdicts_logging [simp]:
  "verdicts (trace (logging lvl fmt args w)) =
     verdicts (trace w) @ (case verdict_of (Log lvl fmt args) of None \<Rightarrow> [] | Some v \<Rightarrow> [v])"
  by (simp add: trace_actions split: option.splits)

lemma verdicts_sent [simp]: "verdicts (trace (sent data w)) = verdicts (trace w)"
  by (simp add: trace_sent)

lemma verdicts_before_uplink [simp]: "verdicts (trace (before_uplink w)) = verdicts (trace w)"
  by (simp add: before_uplink_def trace_actions)

lemma verdicts_world0 [simp]: "verdicts (trace (world0 es)) = []"
  by (simp add: world0_def)

lemma inp_world0 [simp]: "inp (world0 es) = es"
  by (simp add: world0_def)

lemma decode_busy: "decode (bstrip (line ''busy'')) = Some ''busy''"
  by code_simp

lemma busy_not_ok: "\<not> str_in ''ok'' ''busy''"
  by code_simp

lemma decode_mac_tx_ok: "decode (bstrip (line ''mac_tx_ok'')) = Some ''mac_tx_ok''"
  by code_simp

lemma mac_tx_ok_no_rx: "\<not> str_in ''mac_rx'' ''mac_tx_ok''"
  by code_simp

lemma tx_loop_interleaved:
  "\<exists>w'. tx_loop 0 (world0 interleaved) = Ret 6 w' \<and>
     verdicts (trace w') = [Failed, Answered, Failed, Failed, Failed, Failed, Failed] \<and> inp w' = []"
  by (simp add: interleaved_def tx_loop_step tx_loop_stop attempt_def send_pending
        follow_up_def sp_readline_def poll_stop inp_actions line_nonempty
        decode_busy busy_not_ok decode_ok ok_in_ok decode_mac_tx_ok mac_tx_ok_no_rx)

lemmas run_tx =
  tx_loop_step tx_loop_stop attempt_def send_pending follow_up_def sp_readline_def poll_stop
  inp_actions line_nonempty decode_busy busy_not_ok decode_ok ok_in_ok decode_mac_tx_ok
  mac_tx_ok_no_rx

lemma added_world0: "added (world0 es) r = trace (world_of r)"
  by (simp add: added_def world0_def)

section \<open>The commands of lora\_setup\<close>

text \<open>The commands written, in order.\<close>

fun written :: "action list \<Rightarrow> bytes list" where
  "written [] = []"
| "written (Write bs # tr) = bs # written tr"
| "written (_ # tr) = written tr"

definition join_command :: bytes where
  "join_command = ''mac join otaa'' @ CRLF"

text \<open>The twelve commands of lines 145 to 184, as they go over the line.\<close>

definition setup_commands :: "int \<Rightarrow> bytes list" where
  "setup_commands sf =
     [''sys reset'' @ CRLF,
      ''mac set appkey 0123456789ABCDEF0123456789ABCDEF'' @ CRLF,
      ''mac set appeui DEAD25DEAD25DEAD'' @ CRLF,
      ''mac set deveui DEADDEAD00090002'' @ CRLF,
      ''mac set dr '' @ str_int (data_rate_of sf) @ CRLF,
      ''mac set ch dcycle 0 1'' @ CRLF,
      ''mac set ch status 0 on'' @ CRLF,
      ''mac set ch dcycle 1 1'' @ CRLF,
      ''mac set ch status 1 on'' @ CRLF,
      ''mac set ch dcycle 2 1'' @ CRLF,
      ''mac set ch status 2 on'' @ CRLF,
      ''mac save'' @ CRLF]"

lemma written_append [simp]: "written (tr @ tr') = written tr @ written tr'"
  by (induction tr rule: written.induct) simp_all

text \<open>
  \<open>issues cs w r\<close>: the call with outcome \<open>r\<close>, started in \<open>w\<close>, wrote the commands \<open>cs\<close>
  if it returned, and the first of them otherwise.
\<close>

definition issues :: "bytes list \<Rightarrow> world \<Rightarrow> 'a result \<Rightarrow> bool" where
  "issues cs w r =
     (\<exists>t. trace (world_of r) = trace w @ t \<and> prefix (written t) cs \<and>
          ((\<exists>x w'. r = Ret x w') \<longrightarrow> written t = cs))"

definition quiet :: "world \<Rightarrow> world \<Rightarrow> bool" where
  "quiet w w0 = (\<exists>t. trace w0 = trace w @ t \<and> written t = [])"

lemma quiet_refl: "quiet w w"
  by (simp add: quiet_def)

lemma quiet_logging: "quiet w w0 \<Longrightarrow> quiet w (logging lvl fmt args w0)"
  by (auto simp: quiet_def trace_actions)

lemma quiet_sleep: "quiet w w0 \<Longrightarrow> quiet w (sleep ms w0)"
  by (auto simp: quiet_def trace_actions)

lemma issues_Ret: "quiet w w0 \<Longrightarrow> issues [] w (Ret x w0)"
  by (auto simp: issues_def quiet_def)

lemma issues_send: "issues [rstrip data @ CRLF] w (send data w)"
  using send_trace [of data w]
  by (cases "send data w") (auto simp: issues_def encode_def)

lemma issues_then_do:
  assumes "quiet w w0" and "issues cs1 w0 m"
    and "\<And>x w1. m = Ret x w1 \<Longrightarrow> issues cs2 w1 (f x w1)"
  shows "issues (cs1 @ cs2) w (then_do m f)"
proof -
  from assms(1) obtain t0 where t0: "trace w0 = trace w @ t0" "written t0 = []"
    by (auto simp: quiet_def)
  from assms(2) obtain t1 where t1: "trace (world_of m) = trace w0 @ t1"
    "prefix (written t1) cs1" "(\<exists>x w'. m = Ret x w') \<longrightarrow> written t1 = cs1"
    by (auto simp: issues_def)
  show ?thesis
  proof (cases m)
    case (Ret x w1)
    from assms(3) [OF Ret] obtain t2 where t2: "trace (world_of (f x w1)) = trace w1 @ t2"
      "prefix (written t2) cs2" "(\<exists>y w'. f x w1 = Ret y w') \<longrightarrow> written t2 = cs2"
      by (auto simp: issues_def)
    from Ret t1 have w1: "trace w1 = trace w0 @ t1" "written t1 = cs1" by auto
    have "trace (world_of (then_do m f)) = trace w @ (t0 @ t1 @ t2)"
      using Ret t2(1) w1(1) t0(1) by simp
    moreover have "prefix (written (t0 @ t1 @ t2)) (cs1 @ cs2)"
      using t0(2) w1(2) t2(2) by simp
    moreover have "(\<exists>y w'. then_do m f = Ret y w') \<longrightarrow> written (t0 @ t1 @ t2) = cs1 @ cs2"
      using Ret t0(2) w1(2) t2(3) by simp
    ultimately show ?thesis unfolding issues_def by blast
  next
    case (Exc e w1)
    with t0 t1 have "trace (world_of (then_do m f)) = trace w @ (t0 @ t1)"
      "prefix (written (t0 @ t1)) (cs1 @ cs2)" by (simp_all add: prefix_def, auto)
    with Exc show ?thesis unfolding issues_def by auto
  next
    case (Hang w1)
    with t0 t1 have "trace (world_of (then_do m f)) = trace w @ (t0 @ t1)"
      "prefix (written (t0 @ t1)) (cs1 @ cs2)" by (simp_all add: prefix_def, auto)
    with Hang show ?thesis unfolding issues_def by auto
  qed
qed

lemma issues_send_then:
  assumes "quiet w w0" and "\<And>x w1. issues cs w1 (f x w1)"
  shows "issues ((rstrip data @ CRLF) # cs) w (then_do (send data w0) f)"
  using issues_then_do [OF assms(1) issues_send, where f = f and ?cs2.0 = cs and data1 = data] assms(2)
  by simp

lemma space_len_ascii:
  "c < 128 \<Longrightarrow> 32 < c \<Longrightarrow> space_len (c # r) = 0"
  by (auto simp: space3_def split: list.splits)

lemma rstrip_keeps:
  assumes "s \<noteq> []" and "32 < byte (last s)" and "byte (last s) < 128"
  shows "rstrip s = s"
proof -
  from assms(1) obtain c r where r: "rev s = c # r" by (cases "rev s") auto
  then have "c = last s" using assms(1) by (metis last_rev list.sel(1) rev_rev_ident hd_rev)
  with assms have "space_len (byte c # map byte r) = 0"
    by (intro space_len_ascii) simp_all
  with r have "space_len (map byte (rev s)) = 0" by simp
  then have "rstrip_rev (rev s) = rev s" by (subst rstrip_rev.simps) simp
  then show ?thesis by (simp add: rstrip_def)
qed

lemma str_nat_last: "str_nat n \<noteq> [] \<and> last (str_nat n) = char_of (48 + n mod 10)"
  by (subst (1 2) str_nat.simps) simp

lemma str_int_last:
  "str_int i \<noteq> [] \<and> 32 < byte (last (str_int i)) \<and> byte (last (str_int i)) < 128"
proof -
  have d: "\<And>n::nat. 32 < byte (char_of (48 + n mod 10)) \<and> byte (char_of (48 + n mod 10)) < 128"
  proof -
    fix n :: nat
    have "n mod 10 < 10" by simp
    then have "(48 + n mod 10) mod 256 = 48 + n mod 10" by simp
    then have "byte (char_of (48 + n mod 10)) = 48 + n mod 10"
      by (simp add: byte_def)
    then show "32 < byte (char_of (48 + n mod 10)) \<and> byte (char_of (48 + n mod 10)) < 128"
      using \<open>n mod 10 < 10\<close> by simp
  qed
  show ?thesis using str_nat_last d by (simp add: str_int_def)
qed

lemma rstrip_set_dr: "rstrip (''mac set dr '' @ str_int dr) = ''mac set dr '' @ str_int dr"
  using str_int_last [of dr] by (intro rstrip_keeps) simp_all

lemma rstrip_fixed:
  "rstrip ''sys reset'' = ''sys reset''"
  "rstrip (''mac set appkey '' @ APPKEY) = ''mac set appkey 0123456789ABCDEF0123456789ABCDEF''"
  "rstrip (''mac set appeui '' @ JOINEUI) = ''mac set appeui DEAD25DEAD25DEAD''"
  "rstrip (''mac set deveui '' @ DEVEUI) = ''mac set deveui DEADDEAD00090002''"
  "rstrip ''mac save'' = ''mac save''"
  "rstrip ''mac join otaa'' = ''mac join otaa''"
  "rstrip (''mac set ch dcycle '' @ str_int 0 @ '' 1'') = ''mac set ch dcycle 0 1''"
  "rstrip (''mac set ch status '' @ str_int 0 @ '' on'') = ''mac set ch status 0 on''"
  "rstrip (''mac set ch dcycle '' @ str_int 1 @ '' 1'') = ''mac set ch dcycle 1 1''"
  "rstrip (''mac set ch status '' @ str_int 1 @ '' on'') = ''mac set ch status 1 on''"
  "rstrip (''mac set ch dcycle '' @ str_int 2 @ '' 1'') = ''mac set ch dcycle 2 1''"
  "rstrip (''mac set ch status '' @ str_int 2 @ '' on'') = ''mac set ch status 2 on''"
  by code_simp+

lemma issues_channels:
  "issues
     [''mac set ch dcycle 0 1'' @ CRLF, ''mac set ch status 0 on'' @ CRLF,
      ''mac set ch dcycle 1 1'' @ CRLF, ''mac set ch status 1 on'' @ CRLF,
      ''mac set ch dcycle 2 1'' @ CRLF, ''mac set ch status 2 on'' @ CRLF]
     w (channels [0, 1, 2] w)"
proof -
  have "issues
     [rstrip (''mac set ch dcycle '' @ str_int 0 @ '' 1'') @ CRLF,
      rstrip (''mac set ch status '' @ str_int 0 @ '' on'') @ CRLF,
      rstrip (''mac set ch dcycle '' @ str_int 1 @ '' 1'') @ CRLF,
      rstrip (''mac set ch status '' @ str_int 1 @ '' on'') @ CRLF,
      rstrip (''mac set ch dcycle '' @ str_int 2 @ '' 1'') @ CRLF,
      rstrip (''mac set ch status '' @ str_int 2 @ '' on'') @ CRLF]
     w (channels [0, 1, 2] w)"
    unfolding channels.simps
    by (intro issues_send_then issues_Ret quiet_logging quiet_sleep quiet_refl)
  then show ?thesis unfolding rstrip_fixed by simp
qed

lemma issues_channels_then:
  assumes "quiet w w0" and "\<And>x w1. issues cs w1 (f x w1)"
  shows "issues
     ((''mac set ch dcycle 0 1'' @ CRLF) # (''mac set ch status 0 on'' @ CRLF) #
      (''mac set ch dcycle 1 1'' @ CRLF) # (''mac set ch status 1 on'' @ CRLF) #
      (''mac set ch dcycle 2 1'' @ CRLF) # (''mac set ch status 2 on'' @ CRLF) # cs)
     w (then_do (channels [0, 1, 2] w0) f)"
  using issues_then_do [OF assms(1) issues_channels, where f = f and ?cs2.0 = cs] assms(2)
  by simp

lemma issues_provision: "issues (setup_commands sf) w (provision (data_rate_of sf) w)"
proof -
  have "issues
     [rstrip ''sys reset'' @ CRLF,
      rstrip (''mac set appkey '' @ APPKEY) @ CRLF,
      rstrip (''mac set appeui '' @ JOINEUI) @ CRLF,
      rstrip (''mac set deveui '' @ DEVEUI) @ CRLF,
      rstrip (''mac set dr '' @ str_int (data_rate_of sf)) @ CRLF,
      ''mac set ch dcycle 0 1'' @ CRLF, ''mac set ch status 0 on'' @ CRLF,
      ''mac set ch dcycle 1 1'' @ CRLF, ''mac set ch status 1 on'' @ CRLF,
      ''mac set ch dcycle 2 1'' @ CRLF, ''mac set ch status 2 on'' @ CRLF,
      rstrip ''mac save'' @ CRLF]
     w (provision (data_rate_of sf) w)"
    unfolding provision_def
    by (intro issues_send_then issues_channels_then issues_Ret quiet_logging quiet_sleep
          quiet_refl)
  then show ?thesis
    unfolding rstrip_fixed rstrip_set_dr setup_commands_def by simp
qed

lemma join_loop_written:
  "\<exists>t k. trace (world_of (join_loop joining w)) = trace w @ t \<and>
         written t = replicate k join_command \<and> (\<not> joining \<longrightarrow> 0 < k)"
proof (induction joining w rule: join_loop.induct)
  case (1 joining w)
  show ?case
  proof (cases joining)
    case True
    then show ?thesis by (auto simp: join_loop_True intro: exI [of _ 0])
  next
    case False
    let ?w0 = "logging INFO ''Preparing to join the network'' [] w"
    note st = send_trace [of "''mac join otaa''" ?w0]
    show ?thesis
    proof (cases "send ''mac join otaa'' ?w0")
      case (Ret response w1)
      let ?w2 = "sleep 2000 (logging INFO ''Mac join otaa response : %s'' [AStr response] w1)"
      from "1.IH" [OF _ Ret] False obtain t k where
        ih: "trace (world_of (join_loop (if str_in ''ok'' response then True else joining) ?w2)) =
               trace ?w2 @ t" "written t = replicate k join_command"
        by blast
      from False have jl: "join_loop joining w =
          join_loop (if str_in ''ok'' response then True else joining) ?w2"
        using Ret by (simp add: join_loop_False)
      from st Ret have "trace ?w2 = trace w @
          [Log INFO ''Preparing to join the network'' [], Write join_command, Sleep 200,
           Log DEBUG ''Decoded response : %s'' [AStr response],
           Log INFO ''Mac join otaa response : %s'' [AStr response], Sleep 2000]"
        by (simp add: trace_actions rstrip_fixed encode_def join_command_def)
      with ih jl have "trace (world_of (join_loop joining w)) = trace w @
          ([Log INFO ''Preparing to join the network'' [], Write join_command, Sleep 200,
           Log DEBUG ''Decoded response : %s'' [AStr response],
           Log INFO ''Mac join otaa response : %s'' [AStr response], Sleep 2000] @ t)"
        by simp
      moreover have "written ([Log INFO ''Preparing to join the network'' [], Write join_command, Sleep 200,
           Log DEBUG ''Decoded response : %s'' [AStr response],
           Log INFO ''Mac join otaa response : %s'' [AStr response], Sleep 2000] @ t) =
           replicate (Suc k) join_command"
        using ih(2) by simp
      ultimately show ?thesis by blast
    next
      case (Exc e w1)
      with st False have "trace (world_of (join_loop joining w)) = trace w @
          [Log INFO ''Preparing to join the network'' [], Write join_command, Sleep 200]"
        by (simp add: join_loop_False trace_actions rstrip_fixed encode_def join_command_def)
      moreover have "written [Log INFO ''Preparing to join the network'' [], Write join_command,
          Sleep 200] = replicate (Suc 0) join_command" by simp
      ultimately show ?thesis by blast
    next
      case (Hang w1)
      with st False have "trace (world_of (join_loop joining w)) = trace w @
          [Log INFO ''Preparing to join the network'' [], Write join_command, Sleep 200]"
        by (simp add: join_loop_False trace_actions rstrip_fixed encode_def join_command_def)
      moreover have "written [Log INFO ''Preparing to join the network'' [], Write join_command,
          Sleep 200] = replicate (Suc 0) join_command" by simp
      ultimately show ?thesis by blast
    qed
  qed
qed

text \<open>The last step of \<open>lora_setup\<close>, by the first event that is not a time-out.\<close>

definition awaiting :: "world \<Rightarrow> world" where
  "awaiting w = sleep 2000 (logging INFO ''Wating to get the accepted response'' [] w)"

lemma await_accept_pending:
  "await_accept w =
     (case pending (inp w) of
        [] \<Rightarrow> Hang ((awaiting w)\<lparr>inp := []\<rparr>)
      | Line l # rest \<Rightarrow>
          (case decode (bstrip l) of
             None \<Rightarrow> Exc UnicodeDecodeError ((awaiting w)\<lparr>inp := rest\<rparr>)
           | Some response \<Rightarrow>
               Ret (response = ''accepted'')
                 (logging INFO ''Status of the join request : %s'' [AStr response]
                    ((awaiting w)\<lparr>inp := rest\<rparr>)))
      | Raises e # rest \<Rightarrow> Exc e ((awaiting w)\<lparr>inp := rest\<rparr>))"
proof -
  have i: "inp (awaiting w) = inp w" by (simp add: awaiting_def inp_actions)
  have "await_accept w =
     then_do (then_do (sp_readline (awaiting w)) wait_line)
     (\<lambda>ret w.
        (case decode (bstrip ret) of
           None \<Rightarrow> Exc UnicodeDecodeError w
         | Some response \<Rightarrow>
             (if response \<noteq> ''accepted''
              then Ret False (logging INFO ''Status of the join request : %s'' [AStr response] w)
              else Ret True (logging INFO ''Status of the join request : %s'' [AStr response] w))))"
    unfolding await_accept_def awaiting_def
    by (cases "sp_readline (sleep 2000 (logging INFO ''Wating to get the accepted response'' [] w))")
       simp_all
  then show ?thesis
    unfolding read_wait_pending i
    by (simp split: list.splits event.splits option.splits)
qed

lemma await_accept_written:
  "\<exists>t. trace (world_of (await_accept w)) = trace w @ t \<and> written t = []"
proof -
  have t: "trace (awaiting w) =
      trace w @ [Log INFO ''Wating to get the accepted response'' [], Sleep 2000]"
    by (simp add: awaiting_def trace_actions)
  show ?thesis
    unfolding await_accept_pending
    by (auto simp: t trace_actions split: list.splits event.splits option.splits)
qed

lemma join_not_setup: "join_command \<notin> set (setup_commands sf)"
  by (simp add: join_command_def setup_commands_def)




text \<open>
  A script on which \<open>lora_setup\<close> succeeds at once: the module answers \<open>ok\<close> to the
  twelve commands and to the join command, then sends \<open>accepted\<close>. On the second script
  the first join command is refused and the network then denies the join.
\<close>

definition accepting :: "event list" where
  "accepting = replicate 13 (Line (line ''ok'')) @ [Line (line ''accepted'')]"


lemma inp_awaiting [simp]: "inp (awaiting w) = inp w"
  by (simp add: awaiting_def inp_actions)

lemma written_logging [simp]: "written (trace (logging lvl fmt args w)) = written (trace w)"
  by (simp add: trace_actions)

lemma written_sleep [simp]: "written (trace (sleep ms w)) = written (trace w)"
  by (simp add: trace_actions)

lemma written_sent [simp]:
  "written (trace (sent data w)) = written (trace w) @ [rstrip data @ CRLF]"
  by (simp add: trace_sent encode_def)

lemma written_awaiting [simp]: "written (trace (awaiting w)) = written (trace w)"
  by (simp add: awaiting_def)

lemma written_world0 [simp]: "written (trace (world0 es)) = []"
  by (simp add: world0_def)

lemma decode_accepted: "decode (bstrip (line ''accepted'')) = Some ''accepted''"
  by code_simp

lemma decode_denied: "decode (bstrip (line ''denied'')) = Some ''denied''"
  by code_simp

lemmas rstrip_consed = rstrip_fixed [simplified] rstrip_set_dr [simplified]

lemmas run_setup =
  lora_setup_def provision_def send_pending join_loop_False join_loop_True
  await_accept_pending inp_actions line_nonempty decode_ok ok_in_ok decode_busy busy_not_ok
  decode_accepted decode_denied rstrip_consed

lemma lora_setup_accepting:
  "\<exists>w'. lora_setup sf (world0 accepting) = Ret True w' \<and> inp w' = [] \<and>
        written (trace w') = setup_commands sf @ [join_command]"
  by (simp add: accepting_def numeral_eq_Suc run_setup setup_commands_def join_command_def)


section \<open>The line terminator of send\<close>




section \<open>The data rate\<close>

text \<open>
  C4. For every spreading factor from 7 to 12, the data-rate index that \<open>lora_setup\<close>
  computes (line 137) is \<open>|SF - 12|\<close>, that is \<open>12 - SF\<close>, and lies between 0 and 5;
  spreading factor 7 gives index 5 and spreading factor 12 gives index 0.
\<close>

theorem data_rate_in_range:
  "7 \<le> sf \<Longrightarrow> sf \<le> 12 \<Longrightarrow>
   data_rate_of sf = \<bar>sf - 12\<bar> \<and> data_rate_of sf = 12 - sf \<and>
   0 \<le> data_rate_of sf \<and> data_rate_of sf \<le> 5 \<and>
   data_rate_of 7 = 5 \<and> data_rate_of 12 = 0"
  by (simp add: data_rate_of_def)

theorem data_rate_in_range_witness:
  "(7::int) \<le> 9 \<and> (9::int) \<le> 12 \<and> data_rate_of 9 = 3 \<and>
   data_rate_of 7 = 5 \<and> data_rate_of 12 = 0"
proof -
  have a: "(7::int) \<le> 9" and b: "(9::int) \<le> 12" by simp_all
  from data_rate_in_range [OF a b] show ?thesis by simp
qed

section \<open>The exit status\<close>

text \<open>
  C8. The claim: exit status 0 on a clean shutdown, also after an interrupt by the user,
  and exit status 1 when the serial connection cannot be opened. On a port that raises
  \<open>SerialException\<close>, \<open>main\<close> returns 1 (line 223), but the script calls \<^verbatim>\<open>main()\<close>
  and drops the value (line 285): it runs to its end, with exit status 0. After an
  interrupt \<open>main\<close> closes the port and returns 0, and the exit status is 0.
\<close>

theorem exit_status_of_failed_open:
  "main (logging INFO ''Starting program RN2483'' []
      \<lparr>port_error = Some SerialException, inp = [], trace = []\<rparr>) =
     Ret (Some 1)
       \<lparr>port_error = Some SerialException, inp = [],
        trace = [Log INFO ''Starting program RN2483'' [],
                 Log CRITICAL ''Could not open the serial connection.'' [],
                 Log ERROR ''Failed to create the serial connection, %s:%s''
                   [AClass SerialException, AExc SerialException]]\<rparr> \<and>
   program \<lparr>port_error = Some SerialException, inp = [], trace = []\<rparr> = Exited 0 \<and>
   main (world0 [Raises KeyboardInterrupt]) =
     Ret (Some 0)
       \<lparr>port_error = None, inp = [],
        trace = [Log INFO ''Resetting device'' [], Write (''sys reset'' @ CRLF), Sleep 200,
                 Log INFO ''KeyboardInterrupt, ending program'' [], Close]\<rparr> \<and>
   program (world0 [Raises KeyboardInterrupt]) = Exited 0"
  by code_simp

section \<open>The follow-up line\<close>




text \<open>
  C6, as amended. When the follow-up line of an acknowledged uplink contains \<open>mac_rx\<close>,
  the payload the program extracts (and logs) is the text after the last space of the
  line, \<^verbatim>\<open>split(" ")[-1]\<close>; for the line \<open>mac_rx 1 a1b2c3\<close> it is \<open>a1b2c3\<close>. A
  follow-up line without \<open>mac_rx\<close> is logged and dropped, and nothing is extracted.
  Either way \<open>error_counts\<close> stays as it is.

  The claim as stated, the last whitespace-delimited token, fails on a line with a tab:
  \<open>downlink_payload_counterexample\<close>.
\<close>

theorem downlink_payload:
  assumes "send command (before_uplink w) = Ret response w1"
    and "str_in ''ok'' response"
    and "follow_up (logging DEBUG ''Message successfuly sent through serial'' [] w1) =
           Ret (ret, tries) w2"
    and "ret \<noteq> []"
    and "decode (bstrip ret) = Some decoded"
  shows "attempt error_counts w =
     Ret error_counts
       (if str_in ''mac_rx'' decoded then
          logging DEBUG ''Payload : %s'' [AStr (after_last_space decoded)]
            (logging INFO ''Got a max_rx (downlink, processing)'' []
               (logging INFO ''Got response %s'' [AStr decoded] w2))
        else
          logging INFO ''No mac_rx in response, continuing'' []
            (logging INFO ''Got response %s'' [AStr decoded] w2)) \<and>
     after_last_space ''mac_rx 1 a1b2c3'' = ''a1b2c3''"
proof
  show "after_last_space ''mac_rx 1 a1b2c3'' = ''a1b2c3''" by code_simp
  from attempt_follow_up [OF assms, of error_counts]
  show "attempt error_counts w =
     Ret error_counts
       (if str_in ''mac_rx'' decoded then
          logging DEBUG ''Payload : %s'' [AStr (after_last_space decoded)]
            (logging INFO ''Got a max_rx (downlink, processing)'' []
               (logging INFO ''Got response %s'' [AStr decoded] w2))
        else
          logging INFO ''No mac_rx in response, continuing'' []
            (logging INFO ''Got response %s'' [AStr decoded] w2))"
    by (simp add: last_split_sp)
qed

theorem downlink_payload_witness:
  "attempt 2 (world0 [Line (line ''ok''), Line (line ''mac_rx 1 a1b2c3'')]) =
     Ret 2
       \<lparr>port_error = None, inp = [],
        trace = [Log INFO ''Waiting to send message'' [], Sleep 10000,
                 Log INFO (''Sending command '' @ [CHR 0x22] @ ''%s'' @ [CHR 0x22]) [AStr command],
                 Write (command @ CRLF), Sleep 200,
                 Log DEBUG ''Decoded response : %s'' [AStr ''ok''],
                 Log DEBUG ''Message successfuly sent through serial'' [],
                 Log INFO ''Got response %s'' [AStr ''mac_rx 1 a1b2c3''],
                 Log INFO ''Got a max_rx (downlink, processing)'' [],
                 Log DEBUG ''Payload : %s'' [AStr ''a1b2c3'']]\<rparr> \<and>
   attempt 2 (world0 [Line (line ''ok''), Line (line ''mac_tx_ok'')]) =
     Ret 2
       \<lparr>port_error = None, inp = [],
        trace = [Log INFO ''Waiting to send message'' [], Sleep 10000,
                 Log INFO (''Sending command '' @ [CHR 0x22] @ ''%s'' @ [CHR 0x22]) [AStr command],
                 Write (command @ CRLF), Sleep 200,
                 Log DEBUG ''Decoded response : %s'' [AStr ''ok''],
                 Log DEBUG ''Message successfuly sent through serial'' [],
                 Log INFO ''Got response %s'' [AStr ''mac_tx_ok''],
                 Log INFO ''No mac_rx in response, continuing'' []]\<rparr>"
proof -
  have d1: "decode (bstrip (line ''mac_rx 1 a1b2c3'')) = Some ''mac_rx 1 a1b2c3''" by code_simp
  have d2: "decode (bstrip (line ''mac_tx_ok'')) = Some ''mac_tx_ok''" by code_simp
  have m1: "str_in ''mac_rx'' ''mac_rx 1 a1b2c3''" by code_simp
  have m2: "\<not> str_in ''mac_rx'' ''mac_tx_ok''" by code_simp
  have t: "after_last_space ''mac_rx 1 a1b2c3'' = ''a1b2c3''" by code_simp
  have s1: "send command (before_uplink (world0 [Line (line ''ok''), Line (line ''mac_rx 1 a1b2c3'')])) =
     Ret ''ok''
       \<lparr>port_error = None, inp = [Line (line ''mac_rx 1 a1b2c3'')],
        trace = [Log INFO ''Waiting to send message'' [], Sleep 10000,
                 Log INFO (''Sending command '' @ [CHR 0x22] @ ''%s'' @ [CHR 0x22]) [AStr command],
                 Write (command @ CRLF), Sleep 200,
                 Log DEBUG ''Decoded response : %s'' [AStr ''ok'']]\<rparr>"
    by (simp add: run_simps line_nonempty rstrip_command decode_ok)
  have s2: "send command (before_uplink (world0 [Line (line ''ok''), Line (line ''mac_tx_ok'')])) =
     Ret ''ok''
       \<lparr>port_error = None, inp = [Line (line ''mac_tx_ok'')],
        trace = [Log INFO ''Waiting to send message'' [], Sleep 10000,
                 Log INFO (''Sending command '' @ [CHR 0x22] @ ''%s'' @ [CHR 0x22]) [AStr command],
                 Write (command @ CRLF), Sleep 200,
                 Log DEBUG ''Decoded response : %s'' [AStr ''ok'']]\<rparr>"
    by (simp add: run_simps line_nonempty rstrip_command decode_ok)
  note f1 = follow_up_line [OF _ line_nonempty]
  from downlink_payload [OF s1 ok_in_ok f1 line_nonempty d1, of "[]" 2] m1 t
       downlink_payload [OF s2 ok_in_ok f1 line_nonempty d2, of "[]" 2] m2
  show ?thesis by (simp add: logging_def emit_def)
qed

theorem downlink_payload_counterexample:
  "attempt 0 (world0 [Line (line ''ok''), Line (line tab_line)]) =
     Ret 0
       \<lparr>port_error = None, inp = [],
        trace = [Log INFO ''Waiting to send message'' [], Sleep 10000,
                 Log INFO (''Sending command '' @ [CHR 0x22] @ ''%s'' @ [CHR 0x22]) [AStr command],
                 Write (command @ CRLF), Sleep 200,
                 Log DEBUG ''Decoded response : %s'' [AStr ''ok''],
                 Log DEBUG ''Message successfuly sent through serial'' [],
                 Log INFO ''Got response %s'' [AStr tab_line],
                 Log INFO ''Got a max_rx (downlink, processing)'' [],
                 Log DEBUG ''Payload : %s'' [AStr (''1'' @ [CHR 0x09] @ ''a1b2c3'')]]\<rparr> \<and>
   last_token tab_line = ''a1b2c3'' \<and>
   ''1'' @ [CHR 0x09] @ ''a1b2c3'' \<noteq> last_token tab_line"
proof -
  have d: "decode (bstrip (line tab_line)) = Some tab_line" by code_simp
  have m: "str_in ''mac_rx'' tab_line" by code_simp
  have p: "last (split_sp tab_line) = ''1'' @ [CHR 0x09] @ ''a1b2c3''" by code_simp
  have l: "last_token tab_line = ''a1b2c3''" by code_simp
  have s: "send command (before_uplink (world0 [Line (line ''ok''), Line (line tab_line)])) =
     Ret ''ok''
       \<lparr>port_error = None, inp = [Line (line tab_line)],
        trace = [Log INFO ''Waiting to send message'' [], Sleep 10000,
                 Log INFO (''Sending command '' @ [CHR 0x22] @ ''%s'' @ [CHR 0x22]) [AStr command],
                 Write (command @ CRLF), Sleep 200,
                 Log DEBUG ''Decoded response : %s'' [AStr ''ok'']]\<rparr>"
    by (simp add: run_simps line_nonempty rstrip_command decode_ok)
  note f = follow_up_line [OF _ line_nonempty]
  from attempt_follow_up [OF s ok_in_ok f line_nonempty d, of "[]" 0] m
  show ?thesis unfolding p l by (simp add: logging_def emit_def)
qed

section \<open>The failure counter\<close>

text \<open>
  C1, as amended. A session of the transmit loop, entered with \<open>error_counts = 0\<close>, goes
  back to the outer loop exactly on the sixth failure of the session, consecutive or
  not: when \<open>tx_loop\<close> returns, \<open>error_counts\<close> is 6 (the first value above 5), six
  failures are on the log of the session and the last record of the session is the
  sixth failure; a session that does not return (it raises, or waits for ever) has at
  most five failures.

  The claim as stated, the sixth consecutive failure, fails when an answered uplink
  comes between the failures: \<open>session_ends_on_sixth_failure_counterexample\<close>.
\<close>

theorem session_ends_on_sixth_failure:
  "(\<forall>ec' w'. tx_loop 0 w = Ret ec' w' \<longrightarrow>
       ec' = 6 \<and>
       count_list (verdicts (added w (tx_loop 0 w))) Failed = 6 \<and>
       added w (tx_loop 0 w) \<noteq> [] \<and>
       verdict_of (last (added w (tx_loop 0 w))) = Some Failed) \<and>
   ((\<forall>ec' w'. tx_loop 0 w \<noteq> Ret ec' w') \<longrightarrow>
       count_list (verdicts (added w (tx_loop 0 w))) Failed \<le> 5)"
proof -
  from tx_loop_verdicts [of 0 w] obtain t where
    t: "trace (world_of (tx_loop 0 w)) = trace w @ t"
    and v: "(case tx_loop 0 w of
          Ret ec' w' \<Rightarrow>
            ec' = 0 + count_list (verdicts t) Failed \<and> 5 < ec' \<and>
            ((0::nat) \<le> 5 \<longrightarrow> ec' = 6 \<and> t \<noteq> [] \<and> verdict_of (last t) = Some Failed)
        | _ \<Rightarrow> 0 + count_list (verdicts t) Failed \<le> 5)" by blast
  note ad = added_eq [OF t]
  show ?thesis
  proof (cases "tx_loop 0 w")
    case (Ret ec1 w1)
    with v ad show ?thesis by auto
  next
    case (Exc e w1)
    with v ad show ?thesis by auto
  next
    case (Hang w1)
    with v ad show ?thesis by auto
  qed
qed

theorem session_ends_on_sixth_failure_witness:
  "tx_loop 0 (world0 interleaved) = Ret 6 (world_of (tx_loop 0 (world0 interleaved))) \<and>
   count_list (verdicts (added (world0 interleaved) (tx_loop 0 (world0 interleaved)))) Failed = 6 \<and>
   verdict_of (last (added (world0 interleaved) (tx_loop 0 (world0 interleaved)))) = Some Failed \<and>
   (\<forall>ec' w'. tx_loop 0 (world0 [Line (line ''busy'')]) \<noteq> Ret ec' w') \<and>
   count_list (verdicts (added (world0 [Line (line ''busy'')])
      (tx_loop 0 (world0 [Line (line ''busy'')])))) Failed = 1"
proof -
  from tx_loop_interleaved obtain wt where t: "tx_loop 0 (world0 interleaved) = Ret 6 wt"
    by blast
  let ?b = "world0 [Line (line ''busy'')]"
  have "\<exists>w'. tx_loop 0 ?b = Hang w' \<and> verdicts (trace w') = [Failed]"
    by (simp add: run_tx)
  then obtain wb where b: "tx_loop 0 ?b = Hang wb" and vb: "verdicts (trace wb) = [Failed]"
    by blast
  from session_ends_on_sixth_failure [of "world0 interleaved"] t
  have "count_list (verdicts (added (world0 interleaved) (tx_loop 0 (world0 interleaved)))) Failed = 6 \<and>
    verdict_of (last (added (world0 interleaved) (tx_loop 0 (world0 interleaved)))) = Some Failed"
    by blast
  moreover from b have nb: "\<forall>ec' w'. tx_loop 0 ?b \<noteq> Ret ec' w'" by simp
  moreover from session_ends_on_sixth_failure [of ?b] nb
  have "count_list (verdicts (added ?b (tx_loop 0 ?b))) Failed \<le> 5" by blast
  ultimately show ?thesis using t b vb by (simp add: added_world0)
qed

theorem session_ends_on_sixth_failure_counterexample:
  "tx_loop 0 (world0 interleaved) = Ret 6 (world_of (tx_loop 0 (world0 interleaved))) \<and>
   verdicts (added (world0 interleaved) (tx_loop 0 (world0 interleaved))) =
     [Failed, Answered, Failed, Failed, Failed, Failed, Failed] \<and>
   take 6 (rev (verdicts (added (world0 interleaved) (tx_loop 0 (world0 interleaved))))) \<noteq>
     replicate 6 Failed"
proof -
  from tx_loop_interleaved obtain wt where t: "tx_loop 0 (world0 interleaved) = Ret 6 wt"
    and vt: "verdicts (trace wt) = [Failed, Answered, Failed, Failed, Failed, Failed, Failed]"
    by blast
  then show ?thesis by (simp add: added_world0 numeral_eq_Suc)
qed

text \<open>
  C10. No uplink attempt lowers \<open>error_counts\<close>: an attempt that got its follow-up line
  (with or without \<open>mac_rx\<close>) leaves it as it is, a failed one adds 1. So a session that
  ends has counted the failures on its log and nothing else, \<open>error_counts\<close> ending at 6
  with any number of answered uplinks in between.
\<close>

theorem error_counts_never_decreases:
  "(\<forall>ec' w'. attempt ec w = Ret ec' w' \<longrightarrow>
       ec \<le> ec' \<and>
       (verdicts (added w (attempt ec w)) = [Answered] \<and> ec' = ec \<or>
        verdicts (added w (attempt ec w)) = [Failed] \<and> ec' = ec + 1)) \<and>
   (\<forall>ec' w'. tx_loop ec w = Ret ec' w' \<longrightarrow>
       ec \<le> ec' \<and>
       ec' = ec + count_list (verdicts (added w (tx_loop ec w))) Failed \<and>
       (ec \<le> 5 \<longrightarrow> ec' = 6))"
proof (intro conjI allI impI)
  fix ec' w'
  assume a: "attempt ec w = Ret ec' w'"
  from attempt_verdict [of ec w] obtain t where
    t: "trace (world_of (attempt ec w)) = trace w @ t"
    and v: "(ec' = ec + 1 \<and> verdicts t = [Failed]) \<or> (ec' = ec \<and> verdicts t = [Answered])"
    using a by auto
  from added_eq [OF t] v show "ec \<le> ec'" by auto
  from added_eq [OF t] v
  show "verdicts (added w (attempt ec w)) = [Answered] \<and> ec' = ec \<or>
        verdicts (added w (attempt ec w)) = [Failed] \<and> ec' = ec + 1" by auto
next
  fix ec' w'
  assume a: "tx_loop ec w = Ret ec' w'"
  from tx_loop_verdicts [of ec w] obtain t where
    t: "trace (world_of (tx_loop ec w)) = trace w @ t"
    and v: "ec' = ec + count_list (verdicts t) Failed" "ec \<le> 5 \<longrightarrow> ec' = 6"
    using a by auto
  from v show "ec \<le> ec'" by simp
  from added_eq [OF t] v show "ec' = ec + count_list (verdicts (added w (tx_loop ec w))) Failed"
    by simp
  from v show "ec \<le> 5 \<Longrightarrow> ec' = 6" by simp
qed

theorem error_counts_never_decreases_witness:
  "attempt 3 (world0 [Line (line ''ok''), Line (line ''mac_tx_ok'')]) =
     Ret 3 (world_of (attempt 3 (world0 [Line (line ''ok''), Line (line ''mac_tx_ok'')]))) \<and>
   verdicts (added (world0 [Line (line ''ok''), Line (line ''mac_tx_ok'')])
      (attempt 3 (world0 [Line (line ''ok''), Line (line ''mac_tx_ok'')]))) = [Answered] \<and>
   tx_loop 0 (world0 interleaved) = Ret 6 (world_of (tx_loop 0 (world0 interleaved))) \<and>
   verdicts (added (world0 interleaved) (tx_loop 0 (world0 interleaved))) =
     [Failed, Answered, Failed, Failed, Failed, Failed, Failed] \<and>
   0 + count_list (verdicts (added (world0 interleaved) (tx_loop 0 (world0 interleaved)))) Failed = 6"
proof -
  let ?a = "world0 [Line (line ''ok''), Line (line ''mac_tx_ok'')]"
  have "\<exists>w'. attempt 3 ?a = Ret 3 w' \<and> verdicts (trace w') = [Answered]"
    by (simp add: run_tx)
  then obtain wa where a: "attempt 3 ?a = Ret 3 wa" and va: "verdicts (trace wa) = [Answered]"
    by blast
  from tx_loop_interleaved obtain wt where t: "tx_loop 0 (world0 interleaved) = Ret 6 wt"
    and vt: "verdicts (trace wt) = [Failed, Answered, Failed, Failed, Failed, Failed, Failed]"
    by blast
  from error_counts_never_decreases [of 3 ?a] a
  have "verdicts (added ?a (attempt 3 ?a)) = [Answered] \<and> (3::nat) = 3 \<or>
        verdicts (added ?a (attempt 3 ?a)) = [Failed] \<and> (3::nat) = 3 + 1" by blast
  moreover from error_counts_never_decreases [of 0 "world0 interleaved"] t
  have "(6::nat) = 0 + count_list (verdicts (added (world0 interleaved)
      (tx_loop 0 (world0 interleaved)))) Failed" by blast
  ultimately show ?thesis using a va t vt by (simp add: added_world0)
qed

section \<open>The join machine\<close>

text \<open>
  C5. On every run of \<open>lora_setup\<close>, what is written before any join command is the
  reset of the module and then the fixed sequence of \<open>setup_commands\<close>: the four
  \<open>mac set\<close> commands for appkey, appeui, deveui and dr, the six channel commands (duty
  cycle, then status, for the channels 0, 1 and 2) and one \<open>mac save\<close>, in this order.
  A run writes a part of this sequence from its start (when the module stops answering),
  or all of it followed by join commands only; a run that returns has written all of it
  and at least one join command. No command of the sequence is the join command.
\<close>

theorem setup_command_sequence:
  "join_command \<notin> set (setup_commands sf) \<and>
   (prefix (written (added w (lora_setup sf w))) (setup_commands sf) \<or>
    (\<exists>k. written (added w (lora_setup sf w)) = setup_commands sf @ replicate k join_command)) \<and>
   (\<forall>joined w'. lora_setup sf w = Ret joined w' \<longrightarrow>
      (\<exists>k. 0 < k \<and>
           written (added w (lora_setup sf w)) = setup_commands sf @ replicate k join_command))"
proof -
  from issues_provision [of sf w] obtain t1 where
    t1: "trace (world_of (provision (data_rate_of sf) w)) = trace w @ t1"
    and p1: "prefix (written t1) (setup_commands sf)"
    and r1: "(\<exists>x w'. provision (data_rate_of sf) w = Ret x w') \<longrightarrow> written t1 = setup_commands sf"
    unfolding issues_def by blast
  have main: "(prefix (written (added w (lora_setup sf w))) (setup_commands sf) \<and>
       (\<forall>joined w'. lora_setup sf w \<noteq> Ret joined w')) \<or>
    (\<exists>k. written (added w (lora_setup sf w)) = setup_commands sf @ replicate k join_command \<and>
         ((\<exists>joined w'. lora_setup sf w = Ret joined w') \<longrightarrow> 0 < k))"
  proof (cases "provision (data_rate_of sf) w")
    case (Exc e w1)
    then have "lora_setup sf w = Exc e w1" by (simp add: lora_setup_def)
    with Exc t1 p1 show ?thesis by (simp add: added_def)
  next
    case (Hang w1)
    then have "lora_setup sf w = Hang w1" by (simp add: lora_setup_def)
    with Hang t1 p1 show ?thesis by (simp add: added_def)
  next
    case (Ret u w1)
    with t1 r1 have w1: "trace w1 = trace w @ t1" "written t1 = setup_commands sf" by auto
    from join_loop_written [of False w1] obtain t2 k where
      t2: "trace (world_of (join_loop False w1)) = trace w1 @ t2"
      and k: "written t2 = replicate k join_command" "0 < k" by auto
    have ls: "lora_setup sf w = then_do (join_loop False w1) (\<lambda>_ w. await_accept w)"
      using Ret by (simp add: lora_setup_def)
    show ?thesis
    proof (cases "join_loop False w1")
      case (Exc e w2)
      with ls t2 w1 k have "written (added w (lora_setup sf w)) =
          setup_commands sf @ replicate k join_command" "lora_setup sf w = Exc e w2"
        by (simp_all add: added_def)
      then show ?thesis by auto
    next
      case (Hang w2)
      with ls t2 w1 k have "written (added w (lora_setup sf w)) =
          setup_commands sf @ replicate k join_command" "lora_setup sf w = Hang w2"
        by (simp_all add: added_def)
      then show ?thesis by auto
    next
      case (Ret v w2)
      from await_accept_written [of w2] obtain t3 where
        t3: "trace (world_of (await_accept w2)) = trace w2 @ t3" "written t3 = []" by blast
      from Ret ls have "lora_setup sf w = await_accept w2" by simp
      with Ret t2 t3 w1 k have "written (added w (lora_setup sf w)) =
          setup_commands sf @ replicate k join_command"
        by (simp add: added_def)
      with k(2) show ?thesis by auto
    qed
  qed
  from main join_not_setup [of sf] show ?thesis by blast
qed

theorem setup_command_sequence_witness:
  "lora_setup 7 (world0 accepting) = Ret True (world_of (lora_setup 7 (world0 accepting))) \<and>
   written (added (world0 accepting) (lora_setup 7 (world0 accepting))) =
     setup_commands 7 @ [join_command] \<and>
   (\<exists>k. 0 < k \<and>
        written (added (world0 accepting) (lora_setup 7 (world0 accepting))) =
          setup_commands 7 @ replicate k join_command)"
proof -
  from lora_setup_accepting [of 7] obtain w' where
    r: "lora_setup 7 (world0 accepting) = Ret True w'"
    and wr: "written (trace w') = setup_commands 7 @ [join_command]" by blast
  from setup_command_sequence [of 7 "world0 accepting"] r
  have "\<exists>k. 0 < k \<and>
        written (added (world0 accepting) (lora_setup 7 (world0 accepting))) =
          setup_commands 7 @ replicate k join_command" by blast
  with r wr show ?thesis by (simp add: added_world0)
qed



end
